theory Spec2Isabelle
  imports Main
begin

section \<open>The per-slot optional\<close>

text \<open>
  \<^verbatim>\<open>gef::option<T>\<close> is a tagged union: a flag \<^verbatim>\<open>m_is_some\<close> and, when the flag is
  set, a constructed payload \<^verbatim>\<open>m_value\<close>. It is modelled by the HOL option type:
  \<open>None\<close> is the empty slot, \<open>Some v\<close> a slot holding the payload \<open>v\<close>. Destroying a
  payload is the transition from \<open>Some v\<close> to \<open>None\<close>.

  The source has no exceptions; what it has are operations whose behaviour the language
  leaves undefined (reading the payload of an empty optional, indexing a vector out of
  range, erasing at an iterator that is not inside the vector). Each of them is a branch
  of the model that returns the error value.
\<close>

datatype error = UndefinedBehaviour

definition has_value :: "'a option \<Rightarrow> bool" where
  "has_value opt = (case opt of None \<Rightarrow> False | Some v \<Rightarrow> True)"

definition is_null :: "'a option \<Rightarrow> bool" where
  "is_null opt = (\<not> has_value opt)"

definition option_reset :: "'a option \<Rightarrow> 'a option" where
  "option_reset opt = (if has_value opt then None else opt)"

definition value_unchecked :: "'a option \<Rightarrow> error + 'a" where
  "value_unchecked opt = (case opt of None \<Rightarrow> Inl UndefinedBehaviour | Some v \<Rightarrow> Inr v)"

text \<open>
  \<^verbatim>\<open>set\<close> resets the slot, raises the flag, constructs the payload in place and returns
  \<^verbatim>\<open>value_unchecked()\<close> of the slot it has just filled.
\<close>

definition option_set :: "'a \<Rightarrow> 'a option \<Rightarrow> (error + 'a) \<times> 'a option" where
  "option_set v opt =
     (let cleared = option_reset opt;
          filled = Some v
      in (value_unchecked filled, filled))"

section \<open>The sparse array\<close>

text \<open>
  The two public members of \<^verbatim>\<open>sparse_array<T>\<close> are \<^verbatim>\<open>data_vec\<close>, the slots, and
  \<^verbatim>\<open>alive_vec\<close>, the indices recorded as live, in insertion order. The member function
  \<^verbatim>\<open>capacity()\<close> reads \<^verbatim>\<open>alive_vec.capacity()\<close>, the storage reserved for the index
  vector, which is state of its own: \<open>alive_cap\<close>.
\<close>

record 'a sparse_array =
  data_vec :: "'a option list"
  alive_vec :: "nat list"
  alive_cap :: nat

definition capacity :: "'a sparse_array \<Rightarrow> nat" where
  "capacity s = alive_cap s"

definition size_sa :: "'a sparse_array \<Rightarrow> nat" where
  "size_sa s = length (alive_vec s)"

text \<open>The default constructor: two empty vectors, nothing reserved.\<close>

definition sparse_array_default :: "'a sparse_array" where
  "sparse_array_default = \<lparr>data_vec = [], alive_vec = [], alive_cap = 0\<rparr>"

text \<open>
  \<^verbatim>\<open>resize\<close>: \<^verbatim>\<open>data_vec.resize(n)\<close> truncates the slots to \<open>n\<close> or appends empty
  optionals up to \<open>n\<close>; \<^verbatim>\<open>alive_vec.reserve(n)\<close> raises the reservation to \<open>n\<close> when
  it is smaller (the library may reserve more; the common ones reserve \<open>n\<close>) and never
  lowers it.
\<close>

definition resize :: "nat \<Rightarrow> 'a sparse_array \<Rightarrow> 'a sparse_array" where
  "resize new_capacity s =
     s\<lparr>data_vec := take new_capacity (data_vec s)
                     @ replicate (new_capacity - length (data_vec s)) None,
       alive_cap := max (alive_cap s) new_capacity\<rparr>"

definition sparse_array_sized :: "nat \<Rightarrow> 'a sparse_array" where
  "sparse_array_sized n = resize n sparse_array_default"

definition at :: "'a sparse_array \<Rightarrow> nat \<Rightarrow> error + 'a" where
  "at s index =
     (if index < length (data_vec s) then value_unchecked (data_vec s ! index)
      else Inl UndefinedBehaviour)"

text \<open>
  \<^verbatim>\<open>alive_vec.emplace_back(index)\<close> appends. When the vector is full it reallocates,
  and the new reservation is the library's choice: the parameter \<open>grow\<close> maps the old
  reservation to the new one.
\<close>

definition emplace_back :: "(nat \<Rightarrow> nat) \<Rightarrow> nat \<Rightarrow> 'a sparse_array \<Rightarrow> 'a sparse_array" where
  "emplace_back grow index s =
     s\<lparr>alive_vec := alive_vec s @ [index],
       alive_cap := (if length (alive_vec s) < alive_cap s then alive_cap s
                     else grow (alive_cap s))\<rparr>"

text \<open>
  \<^verbatim>\<open>emplace_at\<close> records the index first and then sets the slot, which is undefined
  when the index is not below \<^verbatim>\<open>data_vec.size()\<close>; the result is the payload the
  returned reference denotes, with the updated store.
\<close>

definition emplace_at ::
  "(nat \<Rightarrow> nat) \<Rightarrow> nat \<Rightarrow> 'a \<Rightarrow> 'a sparse_array \<Rightarrow> error + ('a \<times> 'a sparse_array)" where
  "emplace_at grow index v s =
     (let s1 = emplace_back grow index s in
      if index < length (data_vec s1) then
        (case option_set v (data_vec s1 ! index) of
           (Inl e, slot) \<Rightarrow> Inl e
         | (Inr r, slot) \<Rightarrow> Inr (r, s1\<lparr>data_vec := (data_vec s1)[index := slot]\<rparr>))
      else Inl UndefinedBehaviour)"

text \<open>
  \<^verbatim>\<open>next_empty_index\<close>: the early exit on \<^verbatim>\<open>size() == capacity()\<close>, then the scan of
  the slots from the front; \<open>pos\<close> is the offset \<^verbatim>\<open>&item - &data_vec[0]\<close>.
\<close>

fun first_null :: "'a option list \<Rightarrow> nat \<Rightarrow> nat option" where
  "first_null [] pos = None"
| "first_null (item # rest) pos = (if is_null item then Some pos else first_null rest (Suc pos))"

definition next_empty_index :: "'a sparse_array \<Rightarrow> nat option" where
  "next_empty_index s =
     (if size_sa s = capacity s then None else first_null (data_vec s) 0)"

text \<open>
  \<^verbatim>\<open>erase_at\<close> walks \<^verbatim>\<open>alive_vec\<close> with a range-based for loop and erases inside the
  loop. The loop's begin and end are taken once, on entry, so it visits the cells
  \<open>0 ..< n0\<close> of the vector's buffer, where \<open>n0\<close> is the length on entry, whatever the
  erasures do to the length meanwhile. \<^verbatim>\<open>erase\<close> never reallocates: it moves the
  elements behind the erased position one cell to the front and shortens the vector by
  one; the cell that falls off the end keeps its bits. The model therefore carries the
  buffer \<open>buf\<close> (always \<open>n0\<close> cells) and the current length \<open>sz\<close>. An erase at a
  position that is not below the current length is undefined behaviour.

  The language standard, read strictly, already invalidates the loop's iterators at the
  first erase. The model follows what the loop does when the vector's iterators are plain
  pointers into the buffer, which is how the program runs when it is built for release.
\<close>

definition buffer_erase :: "nat \<Rightarrow> nat list \<Rightarrow> nat \<Rightarrow> nat list" where
  "buffer_erase pos buf sz =
     take pos buf @ drop (Suc pos) (take sz buf) @ drop (sz - 1) buf"

function erase_loop :: "nat \<Rightarrow> nat \<Rightarrow> nat \<Rightarrow> nat list \<Rightarrow> nat \<Rightarrow> error + (nat list \<times> nat)" where
  "erase_loop index pos n0 buf sz =
     (if pos < n0 then
        (if buf ! pos = index then
           (if pos < sz then erase_loop index (Suc pos) n0 (buffer_erase pos buf sz) (sz - 1)
            else Inl UndefinedBehaviour)
         else erase_loop index (Suc pos) n0 buf sz)
      else Inr (buf, sz))"
  by pat_completeness auto
termination
  by (relation "measure (\<lambda>(index, pos, n0, buf, sz). n0 - pos)") auto

definition erase_at :: "nat \<Rightarrow> 'a sparse_array \<Rightarrow> error + 'a sparse_array" where
  "erase_at index s =
     (case erase_loop index 0 (length (alive_vec s)) (alive_vec s) (length (alive_vec s)) of
        Inl e \<Rightarrow> Inl e
      | Inr (buf, sz) \<Rightarrow>
          if index < length (data_vec s) then
            Inr (s\<lparr>alive_vec := take sz buf,
                   data_vec := (data_vec s)[index := option_reset (data_vec s ! index)]\<rparr>)
          else Inl UndefinedBehaviour)"

text \<open>
  \<^verbatim>\<open>erase_if\<close> hands \<^verbatim>\<open>std::erase_if\<close> a closure that reads the payload with
  \<^verbatim>\<open>at(index)\<close>, asks the caller's predicate \<open>f\<close> and resets the slot on a match.
  The library applies the closure to each element of \<^verbatim>\<open>alive_vec\<close> once, front to
  back, and keeps the elements it rejected, in order. The scan returns the kept indices,
  the indices at which \<open>f\<close> was invoked (in call order) and the store. The predicate
  is a pure function of the payload.
\<close>

definition erase_if_closure ::
  "('a \<Rightarrow> bool) \<Rightarrow> nat \<Rightarrow> 'a sparse_array \<Rightarrow> error + (bool \<times> 'a sparse_array)" where
  "erase_if_closure f index s =
     (case at s index of
        Inl e \<Rightarrow> Inl e
      | Inr v \<Rightarrow>
          if f v then
            Inr (True, s\<lparr>data_vec := (data_vec s)[index := option_reset (data_vec s ! index)]\<rparr>)
          else Inr (False, s))"

fun erase_if_scan ::
  "('a \<Rightarrow> bool) \<Rightarrow> nat list \<Rightarrow> 'a sparse_array \<Rightarrow> error + (nat list \<times> nat list \<times> 'a sparse_array)" where
  "erase_if_scan f [] s = Inr ([], [], s)"
| "erase_if_scan f (index # rest) s =
     (case erase_if_closure f index s of
        Inl e \<Rightarrow> Inl e
      | Inr (hit, s1) \<Rightarrow>
          (case erase_if_scan f rest s1 of
             Inl e \<Rightarrow> Inl e
           | Inr (kept, calls, s2) \<Rightarrow>
               Inr (if hit then kept else index # kept, index # calls, s2)))"

definition erase_if :: "('a \<Rightarrow> bool) \<Rightarrow> 'a sparse_array \<Rightarrow> error + 'a sparse_array" where
  "erase_if f s =
     (case erase_if_scan f (alive_vec s) s of
        Inl e \<Rightarrow> Inl e
      | Inr (kept, calls, s1) \<Rightarrow> Inr (s1\<lparr>alive_vec := kept\<rparr>))"

definition erase_if_calls :: "('a \<Rightarrow> bool) \<Rightarrow> 'a sparse_array \<Rightarrow> error + nat list" where
  "erase_if_calls f s =
     (case erase_if_scan f (alive_vec s) s of
        Inl e \<Rightarrow> Inl e
      | Inr (kept, calls, s1) \<Rightarrow> Inr calls)"

text \<open>
  \<^verbatim>\<open>for_each\<close>: the visitor receives the payload by reference and may change it, so it
  is a function from the payload and the index to the payload it leaves behind (a
  visitor that writes through the index reference, or changes the store, is outside the
  model). The loop returns the list of the visitor's calls, each with the payload and the
  index it was given, and the store.
\<close>

fun for_each_loop ::
  "('a \<Rightarrow> nat \<Rightarrow> 'a) \<Rightarrow> nat list \<Rightarrow> 'a sparse_array \<Rightarrow> error + (('a \<times> nat) list \<times> 'a sparse_array)" where
  "for_each_loop f [] s = Inr ([], s)"
| "for_each_loop f (index # rest) s =
     (case at s index of
        Inl e \<Rightarrow> Inl e
      | Inr v \<Rightarrow>
          (case for_each_loop f rest (s\<lparr>data_vec := (data_vec s)[index := Some (f v index)]\<rparr>) of
             Inl e \<Rightarrow> Inl e
           | Inr (calls, s1) \<Rightarrow> Inr ((v, index) # calls, s1)))"

definition for_each ::
  "('a \<Rightarrow> nat \<Rightarrow> 'a) \<Rightarrow> 'a sparse_array \<Rightarrow> error + (('a \<times> nat) list \<times> 'a sparse_array)" where
  "for_each f s = for_each_loop f (alive_vec s) s"

definition clear :: "'a sparse_array \<Rightarrow> 'a sparse_array" where
  "clear s = s\<lparr>alive_vec := [], data_vec := map option_reset (data_vec s)\<rparr>"

section \<open>The liveness invariant and sequences of calls\<close>

text \<open>
  The number of occupied slots, and the invariant that ties the list of live indices to
  the slots: no index is listed twice, every listed index is the index of an occupied
  slot, and the index of every occupied slot is listed exactly once.
\<close>

definition occupied_count :: "'a sparse_array \<Rightarrow> nat" where
  "occupied_count s = length (filter has_value (data_vec s))"

definition liveness_invariant :: "'a sparse_array \<Rightarrow> bool" where
  "liveness_invariant s \<longleftrightarrow>
     distinct (alive_vec s)
     \<and> (\<forall>i \<in> set (alive_vec s). i < length (data_vec s) \<and> has_value (data_vec s ! i))
     \<and> (\<forall>i \<in> set [0..<length (data_vec s)].
           has_value (data_vec s ! i) \<longrightarrow> count_list (alive_vec s) i = 1)"

text \<open>
  Every slot has a reserved cell in the index vector: \<^verbatim>\<open>resize\<close> is the only operation
  that adds slots, and it reserves as many cells.
\<close>

definition slots_reserved :: "'a sparse_array \<Rightarrow> bool" where
  "slots_reserved s \<longleftrightarrow> length (data_vec s) \<le> alive_cap s"

text \<open>Whether the caller's predicate holds of the payload of slot \<open>i\<close>.\<close>

definition matches :: "('a \<Rightarrow> bool) \<Rightarrow> 'a sparse_array \<Rightarrow> nat \<Rightarrow> bool" where
  "matches f s i = (case at s i of Inl e \<Rightarrow> False | Inr v \<Rightarrow> f v)"

text \<open>
  The lists of live indices that \<^verbatim>\<open>erase_if\<close> can walk without reading an empty slot:
  every listed index is the index of an occupied slot, and an index whose payload
  satisfies the predicate is listed once only (its slot is empty after the first visit).
\<close>

definition erasable_entries :: "('a \<Rightarrow> bool) \<Rightarrow> 'a sparse_array \<Rightarrow> nat list \<Rightarrow> bool" where
  "erasable_entries f s xs \<longleftrightarrow>
     (\<forall>i \<in> set xs. i < length (data_vec s) \<and> has_value (data_vec s ! i)
        \<and> (matches f s i \<longrightarrow> count_list xs i = 1))"

text \<open>
  The lists \<^verbatim>\<open>for_each\<close> can walk: every listed index is the index of an occupied slot.
\<close>

definition visitable_entries :: "'a sparse_array \<Rightarrow> nat list \<Rightarrow> bool" where
  "visitable_entries s xs \<longleftrightarrow>
     (\<forall>i \<in> set xs. i < length (data_vec s) \<and> has_value (data_vec s ! i))"

text \<open>A sequence of \<^verbatim>\<open>emplace_at\<close> and \<^verbatim>\<open>erase_at\<close> calls, run until the first error.\<close>

datatype 'a call = Emplace_at nat 'a | Erase_at nat

fun call_step :: "(nat \<Rightarrow> nat) \<Rightarrow> 'a call \<Rightarrow> 'a sparse_array \<Rightarrow> error + 'a sparse_array" where
  "call_step grow (Emplace_at index v) s =
     (case emplace_at grow index v s of Inl e \<Rightarrow> Inl e | Inr (r, s') \<Rightarrow> Inr s')"
| "call_step grow (Erase_at index) s = erase_at index s"

fun run_calls :: "(nat \<Rightarrow> nat) \<Rightarrow> 'a call list \<Rightarrow> 'a sparse_array \<Rightarrow> error + 'a sparse_array" where
  "run_calls grow [] s = Inr s"
| "run_calls grow (c # cs) s =
     (case call_step grow c s of Inl e \<Rightarrow> Inl e | Inr s' \<Rightarrow> run_calls grow cs s')"

fun call_target :: "'a call \<Rightarrow> nat" where
  "call_target (Emplace_at index v) = index"
| "call_target (Erase_at index) = index"

text \<open>
  The calls a sequence may make when \<open>n\<close> slots exist and the indices in \<open>live\<close> are
  occupied: every index is below \<open>n\<close>, and \<^verbatim>\<open>emplace_at\<close> is never aimed at an index
  that is occupied at that moment.
\<close>

fun distinct_calls :: "nat \<Rightarrow> nat list \<Rightarrow> 'a call list \<Rightarrow> bool" where
  "distinct_calls n live [] = True"
| "distinct_calls n live (Emplace_at index v # cs) =
     (index < n \<and> index \<notin> set live \<and> distinct_calls n (index # live) cs)"
| "distinct_calls n live (Erase_at index # cs) =
     (index < n \<and> distinct_calls n (removeAll index live) cs)"

section \<open>Concrete stores\<close>

text \<open>
  Four stores on which the theorems are instantiated. The first is what
  \<^verbatim>\<open>sparse_array<int> s(3); s.emplace_at(0, 5); s.emplace_at(2, 6);\<close> builds, the
  fourth, \<open>reversed_store\<close>, what the same two calls build in the other order. The
  second is built by \<^verbatim>\<open>s(3); s.resize(2); s.emplace_at(0, 5); s.emplace_at(1, 6);\<close>:
  the slots were cut back to two while three cells stay reserved. The third is built by
  \<^verbatim>\<open>s(4); s.emplace_at(0, 1); s.emplace_at(1, 2); s.emplace_at(0, 3); s.emplace_at(2, 4);\<close>,
  where index 0 was emplaced twice.
\<close>

definition example_store :: "nat sparse_array" where
  "example_store = \<lparr>data_vec = [Some 5, None, Some 6], alive_vec = [0, 2], alive_cap = 3\<rparr>"

definition shrunk_store :: "nat sparse_array" where
  "shrunk_store = \<lparr>data_vec = [Some 5, Some 6], alive_vec = [0, 1], alive_cap = 3\<rparr>"

definition reversed_store :: "nat sparse_array" where
  "reversed_store = \<lparr>data_vec = [Some 5, None, Some 6], alive_vec = [2, 0], alive_cap = 3\<rparr>"

definition duplicated_store :: "nat sparse_array" where
  "duplicated_store =
     \<lparr>data_vec = [Some 3, Some 2, Some 4, None], alive_vec = [0, 1, 0, 2], alive_cap = 4\<rparr>"

section \<open>Basic facts about the optional\<close>

lemma has_value_simps [simp]:
  "has_value None = False" "has_value (Some v) = True"
  by (simp_all add: has_value_def)

lemma has_value_iff: "has_value opt \<longleftrightarrow> opt \<noteq> None"
  by (cases opt) simp_all

lemma option_reset_None [simp]: "option_reset opt = None"
  by (cases opt) (simp_all add: option_reset_def)

lemma option_set_Some [simp]: "option_set v opt = (Inr v, Some v)"
  by (simp add: option_set_def value_unchecked_def)

section \<open>The erasing loop\<close>

text \<open>
  The loop's equation is recursive without a pattern, so it is unfolded by hand, one
  iteration at a time.
\<close>

declare erase_loop.simps [simp del]

lemma length_buffer_erase:
  "pos < sz \<Longrightarrow> sz \<le> length buf \<Longrightarrow> length (buffer_erase pos buf sz) = length buf"
  by (simp add: buffer_erase_def)

lemma take_prefix_exact: "length A = n \<Longrightarrow> take n (A @ B) = A"
  by simp

lemma take_buffer_erase:
  assumes "pos < sz" "sz \<le> length buf"
  shows "take (sz - 1) (buffer_erase pos buf sz) = take pos buf @ drop (Suc pos) (take sz buf)"
proof -
  have len: "length (take pos buf @ drop (Suc pos) (take sz buf)) = sz - 1"
    using assms by simp
  have eq: "buffer_erase pos buf sz
              = (take pos buf @ drop (Suc pos) (take sz buf)) @ drop (sz - 1) buf"
    by (simp add: buffer_erase_def)
  show ?thesis unfolding eq using len by (rule take_prefix_exact)
qed

lemma erase_loop_no_match:
  "\<forall>q. pos \<le> q \<and> q < n0 \<longrightarrow> buf ! q \<noteq> index \<Longrightarrow> erase_loop index pos n0 buf sz = Inr (buf, sz)"
proof (induction index pos n0 buf sz rule: erase_loop.induct)
  case (1 index pos n0 buf sz)
  show ?case
  proof (cases "pos < n0")
    case True
    with "1.prems" have ne: "buf ! pos \<noteq> index" by simp
    have "erase_loop index (Suc pos) n0 buf sz = Inr (buf, sz)"
      using "1.IH"(2) [OF True ne] "1.prems" by simp
    with True ne show ?thesis by (subst erase_loop.simps) simp
  next
    case False
    then show ?thesis by (subst erase_loop.simps) simp
  qed
qed

lemma erase_loop_skip:
  "pos \<le> p \<Longrightarrow> \<forall>q. pos \<le> q \<and> q < p \<longrightarrow> buf ! q \<noteq> index \<Longrightarrow> p \<le> n0 \<Longrightarrow>
   erase_loop index pos n0 buf sz = erase_loop index p n0 buf sz"
proof (induction "p - pos" arbitrary: pos)
  case 0
  then show ?case by simp
next
  case (Suc d)
  then have lt: "pos < p" by simp
  with Suc.prems have ne: "buf ! pos \<noteq> index" and lt0: "pos < n0" by auto
  have "erase_loop index (Suc pos) n0 buf sz = erase_loop index p n0 buf sz"
    using Suc.hyps(1) [of "Suc pos"] Suc.hyps(2) Suc.prems lt by simp
  with ne lt0 show ?case by (subst erase_loop.simps) simp
qed

lemma erase_loop_sound:
  "erase_loop index pos n0 buf sz = Inr (buf', sz') \<Longrightarrow> sz \<le> length buf \<Longrightarrow>
   sz' \<le> sz \<and> length buf' = length buf
   \<and> filter (\<lambda>x. x \<noteq> index) (take sz' buf') = filter (\<lambda>x. x \<noteq> index) (take sz buf)"
proof (induction index pos n0 buf sz rule: erase_loop.induct)
  case (1 index pos n0 buf sz)
  show ?case
  proof (cases "pos < n0")
    case False
    with "1.prems" show ?thesis by (subst (asm) erase_loop.simps) simp
  next
    case True
    show ?thesis
    proof (cases "buf ! pos = index")
      case False
      with True "1.prems" have "erase_loop index (Suc pos) n0 buf sz = Inr (buf', sz')"
        by (subst (asm) erase_loop.simps) simp
      from "1.IH"(2) [OF True False this "1.prems"(2)] show ?thesis .
    next
      case eq: True
      show ?thesis
      proof (cases "pos < sz")
        case False
        with True eq "1.prems" show ?thesis by (subst (asm) erase_loop.simps) simp
      next
        case lt: True
        with True eq "1.prems"
        have run: "erase_loop index (Suc pos) n0 (buffer_erase pos buf sz) (sz - 1) = Inr (buf', sz')"
          by (subst (asm) erase_loop.simps) simp
        have len: "sz - 1 \<le> length (buffer_erase pos buf sz)"
          using lt "1.prems"(2) by (simp add: length_buffer_erase)
        from "1.IH"(1) [OF True eq lt run len]
        have ih: "sz' \<le> sz - 1" "length buf' = length (buffer_erase pos buf sz)"
          "filter (\<lambda>x. x \<noteq> index) (take sz' buf')
             = filter (\<lambda>x. x \<noteq> index) (take (sz - 1) (buffer_erase pos buf sz))"
          by simp_all
        have split: "take sz buf = take pos buf @ buf ! pos # drop (Suc pos) (take sz buf)"
          using lt "1.prems"(2)
          by (metis (no_types, lifting) id_take_nth_drop length_take min.absorb2 nth_take take_take min.strict_order_iff)
        have "filter (\<lambda>x. x \<noteq> index) (take sz buf)
                = filter (\<lambda>x. x \<noteq> index) (take pos buf @ drop (Suc pos) (take sz buf))"
          by (subst split) (simp add: eq)
        moreover have "take (sz - 1) (buffer_erase pos buf sz)
                         = take pos buf @ drop (Suc pos) (take sz buf)"
          using lt "1.prems"(2) by (rule take_buffer_erase)
        moreover have "length (buffer_erase pos buf sz) = length buf"
          using lt "1.prems"(2) by (rule length_buffer_erase)
        ultimately show ?thesis using ih by simp
      qed
    qed
  qed
qed

text \<open>
  When the index occurs once, the loop erases that occurrence and then walks over the
  shifted tail and the cell left behind, which holds a copy of the last element and is
  therefore no second match.
\<close>

lemma buffer_erase_split:
  "buffer_erase (length ys) (ys @ index # zs) (Suc (length ys + length zs))
     = ys @ zs @ [last (index # zs)]"
proof -
  have "drop (length ys + length zs) (ys @ index # zs) = [last (index # zs)]"
    by (cases zs rule: rev_cases) simp_all
  then show ?thesis by (simp add: buffer_erase_def)
qed

lemma stale_tail_in_set:
  assumes "Suc 0 \<le> k" "k \<le> length zs"
  shows "(zs @ [last (index # zs)]) ! k \<in> set zs"
proof (cases "k < length zs")
  case True
  then show ?thesis by (simp add: nth_append)
next
  case False
  with assms have k: "k = length zs" and ne: "zs \<noteq> []" by auto
  then show ?thesis by (simp add: nth_append)
qed

lemma erase_loop_single:
  assumes "index \<notin> set ys" "index \<notin> set zs"
  shows "erase_loop index 0 (Suc (length ys + length zs)) (ys @ index # zs)
           (Suc (length ys + length zs))
         = Inr (ys @ zs @ [last (index # zs)], length ys + length zs)"
proof -
  let ?n = "Suc (length ys + length zs)"
  let ?xs = "ys @ index # zs"
  let ?B = "ys @ zs @ [last (index # zs)]"
  have before: "\<forall>q. 0 \<le> q \<and> q < length ys \<longrightarrow> ?xs ! q \<noteq> index"
    using assms(1) by (auto simp: nth_append)
  have "erase_loop index 0 ?n ?xs ?n = erase_loop index (length ys) ?n ?xs ?n"
    by (rule erase_loop_skip [OF _ before]) simp_all
  also have "\<dots> = erase_loop index (Suc (length ys)) ?n (buffer_erase (length ys) ?xs ?n) (?n - 1)"
    by (subst erase_loop.simps) simp
  also have "\<dots> = erase_loop index (Suc (length ys)) ?n ?B (length ys + length zs)"
    by (simp add: buffer_erase_split)
  also have "\<dots> = Inr (?B, length ys + length zs)"
  proof (rule erase_loop_no_match, intro allI impI)
    fix q assume q: "Suc (length ys) \<le> q \<and> q < ?n"
    then have "?B ! q = (zs @ [last (index # zs)]) ! (q - length ys)"
      by (simp add: nth_append)
    moreover have "(zs @ [last (index # zs)]) ! (q - length ys) \<in> set zs"
      using q by (intro stale_tail_in_set) auto
    ultimately show "?B ! q \<noteq> index" using assms(2) by auto
  qed
  finally show ?thesis .
qed

lemma erase_loop_distinct:
  assumes "distinct xs"
  shows "\<exists>buf. erase_loop index 0 (length xs) xs (length xs)
                 = Inr (buf, length (remove1 index xs))
               \<and> take (length (remove1 index xs)) buf = remove1 index xs"
proof (cases "index \<in> set xs")
  case False
  then have "\<forall>q. 0 \<le> q \<and> q < length xs \<longrightarrow> xs ! q \<noteq> index" by auto
  then have "erase_loop index 0 (length xs) xs (length xs) = Inr (xs, length xs)"
    by (rule erase_loop_no_match)
  with False show ?thesis by (simp add: remove1_idem)
next
  case True
  then obtain ys zs where xs: "xs = ys @ index # zs" by (auto dest: split_list)
  with assms have nin: "index \<notin> set ys" "index \<notin> set zs" by auto
  have rm: "remove1 index xs = ys @ zs" using xs nin by (simp add: remove1_append)
  have "erase_loop index 0 (length xs) xs (length xs)
          = Inr (ys @ zs @ [last (index # zs)], length ys + length zs)"
    using erase_loop_single [OF nin] by (simp add: xs)
  then show ?thesis by (simp add: rm)
qed

lemma erase_at_distinct:
  assumes "distinct (alive_vec s)" "index < length (data_vec s)"
  shows "erase_at index s
           = Inr (s\<lparr>alive_vec := remove1 index (alive_vec s),
                   data_vec := (data_vec s)[index := None]\<rparr>)"
proof -
  from erase_loop_distinct [OF assms(1), of index] obtain buf where
    "erase_loop index 0 (length (alive_vec s)) (alive_vec s) (length (alive_vec s))
       = Inr (buf, length (remove1 index (alive_vec s)))"
    "take (length (remove1 index (alive_vec s))) buf = remove1 index (alive_vec s)"
    by blast
  with assms(2) show ?thesis by (simp add: erase_at_def)
qed

lemma erase_at_sound:
  assumes "erase_at index s = Inr s'"
  shows "index < length (data_vec s)
         \<and> data_vec s' = (data_vec s)[index := None]
         \<and> alive_cap s' = alive_cap s
         \<and> length (alive_vec s') \<le> length (alive_vec s)
         \<and> filter (\<lambda>x. x \<noteq> index) (alive_vec s') = filter (\<lambda>x. x \<noteq> index) (alive_vec s)"
proof -
  from assms obtain buf sz where
    run: "erase_loop index 0 (length (alive_vec s)) (alive_vec s) (length (alive_vec s))
            = Inr (buf, sz)"
    by (auto simp: erase_at_def split: sum.splits)
  from erase_loop_sound [OF run]
  have snd: "sz \<le> length (alive_vec s)" "length buf = length (alive_vec s)"
    "filter (\<lambda>x. x \<noteq> index) (take sz buf) = filter (\<lambda>x. x \<noteq> index) (alive_vec s)"
    by simp_all
  from assms run have lt: "index < length (data_vec s)"
    and s': "s' = s\<lparr>alive_vec := take sz buf, data_vec := (data_vec s)[index := None]\<rparr>"
    by (auto simp: erase_at_def split: if_splits)
  show ?thesis using lt snd by (simp add: s')
qed

section \<open>The invariant under emplace_at and erase_at\<close>

lemma distinct_count_list_one:
  "distinct xs \<Longrightarrow> count_list xs x = Suc 0 \<longleftrightarrow> x \<in> set xs"
  by (induction xs) auto

lemma liveness_invariant_iff:
  "liveness_invariant s \<longleftrightarrow>
     distinct (alive_vec s)
     \<and> set (alive_vec s) = {i. i < length (data_vec s) \<and> has_value (data_vec s ! i)}"
proof (cases "distinct (alive_vec s)")
  case False
  then show ?thesis by (simp add: liveness_invariant_def)
next
  case True
  then have key: "\<And>i. count_list (alive_vec s) i = Suc 0 \<longleftrightarrow> i \<in> set (alive_vec s)"
    by (rule distinct_count_list_one)
  let ?occ = "{i. i < length (data_vec s) \<and> has_value (data_vec s ! i)}"
  have "liveness_invariant s \<longleftrightarrow> set (alive_vec s) \<subseteq> ?occ \<and> ?occ \<subseteq> set (alive_vec s)"
    unfolding liveness_invariant_def One_nat_def key subset_iff
    using True by (simp add: Ball_def; blast)
  then show ?thesis using True by (simp add: set_eq_subset)
qed

lemma size_is_occupied_count:
  assumes "liveness_invariant s"
  shows "size_sa s = occupied_count s"
proof -
  from assms have d: "distinct (alive_vec s)"
    and st: "set (alive_vec s) = {i. i < length (data_vec s) \<and> has_value (data_vec s ! i)}"
    by (simp_all add: liveness_invariant_iff)
  have "size_sa s = card (set (alive_vec s))"
    using d by (simp add: size_sa_def distinct_card)
  also have "\<dots> = occupied_count s"
    by (simp add: st occupied_count_def length_filter_conv_card)
  finally show ?thesis .
qed

lemma emplace_at_result:
  assumes "index < length (data_vec s)"
  shows "emplace_at grow index v s
           = Inr (v, (emplace_back grow index s)\<lparr>data_vec := (data_vec s)[index := Some v]\<rparr>)"
  using assms by (simp add: emplace_at_def emplace_back_def Let_def)

lemma emplace_at_error:
  "\<not> index < length (data_vec s) \<Longrightarrow> emplace_at grow index v s = Inl UndefinedBehaviour"
  by (simp add: emplace_at_def emplace_back_def Let_def)

lemma liveness_invariant_mem:
  "liveness_invariant s \<longleftrightarrow>
     distinct (alive_vec s)
     \<and> (\<forall>i. i \<in> set (alive_vec s) \<longleftrightarrow> i < length (data_vec s) \<and> has_value (data_vec s ! i))"
  unfolding liveness_invariant_iff by blast

lemma emplace_at_invariant:
  assumes "liveness_invariant s" "index < length (data_vec s)" "index \<notin> set (alive_vec s)"
  shows "liveness_invariant ((emplace_back grow index s)\<lparr>data_vec := (data_vec s)[index := Some v]\<rparr>)"
proof -
  from assms(1) have d: "distinct (alive_vec s)"
    and m: "\<And>i. i \<in> set (alive_vec s) \<longleftrightarrow> i < length (data_vec s) \<and> has_value (data_vec s ! i)"
    by (simp_all add: liveness_invariant_mem)
  have "distinct (alive_vec s @ [index])" using d assms(3) by simp
  moreover have "i \<in> set (alive_vec s @ [index])
      \<longleftrightarrow> i < length ((data_vec s)[index := Some v]) \<and> has_value ((data_vec s)[index := Some v] ! i)"
    for i
  proof (cases "i = index")
    case True
    then show ?thesis using assms(2) by simp
  next
    case False
    then show ?thesis using m [of i] by simp
  qed
  ultimately show ?thesis by (simp add: liveness_invariant_mem emplace_back_def)
qed

lemma erase_at_invariant:
  assumes "liveness_invariant s" "index < length (data_vec s)"
  shows "liveness_invariant
           (s\<lparr>alive_vec := remove1 index (alive_vec s), data_vec := (data_vec s)[index := None]\<rparr>)"
proof -
  from assms(1) have d: "distinct (alive_vec s)"
    and m: "\<And>i. i \<in> set (alive_vec s) \<longleftrightarrow> i < length (data_vec s) \<and> has_value (data_vec s ! i)"
    by (simp_all add: liveness_invariant_mem)
  have "distinct (remove1 index (alive_vec s))" using d by simp
  moreover have "i \<in> set (remove1 index (alive_vec s))
      \<longleftrightarrow> i < length ((data_vec s)[index := None]) \<and> has_value ((data_vec s)[index := None] ! i)"
    for i
  proof (cases "i = index")
    case True
    then show ?thesis using assms(2) d by simp
  next
    case False
    then show ?thesis using m [of i] d by simp
  qed
  ultimately show ?thesis by (simp add: liveness_invariant_mem)
qed

lemma run_calls_invariant:
  assumes "liveness_invariant s" "length (data_vec s) = n" "set (alive_vec s) = set live"
    "distinct_calls n live cs"
  shows "\<exists>s'. run_calls grow cs s = Inr s' \<and> liveness_invariant s' \<and> length (data_vec s') = n"
  using assms
proof (induction cs arbitrary: s live)
  case Nil
  then show ?case by simp
next
  case (Cons c cs)
  show ?case
  proof (cases c)
    case (Emplace_at index v)
    let ?s1 = "(emplace_back grow index s)\<lparr>data_vec := (data_vec s)[index := Some v]\<rparr>"
    from Cons.prems Emplace_at have lt: "index < length (data_vec s)"
      and fresh: "index \<notin> set (alive_vec s)"
      and rest: "distinct_calls n (index # live) cs" by simp_all
    have step: "call_step grow c s = Inr ?s1"
      by (simp add: Emplace_at emplace_at_result [OF lt])
    have inv1: "liveness_invariant ?s1"
      using Cons.prems(1) lt fresh by (rule emplace_at_invariant)
    have len1: "length (data_vec ?s1) = n" using Cons.prems(2) by simp
    have set1: "set (alive_vec ?s1) = set (index # live)"
      using Cons.prems(3) by (simp add: emplace_back_def)
    from Cons.IH [OF inv1 len1 set1 rest] step show ?thesis by simp
  next
    case (Erase_at index)
    let ?s1 = "s\<lparr>alive_vec := remove1 index (alive_vec s), data_vec := (data_vec s)[index := None]\<rparr>"
    from Cons.prems Erase_at have lt: "index < length (data_vec s)"
      and rest: "distinct_calls n (removeAll index live) cs" by simp_all
    have d: "distinct (alive_vec s)" using Cons.prems(1) by (simp add: liveness_invariant_iff)
    have step: "call_step grow c s = Inr ?s1"
      by (simp add: Erase_at erase_at_distinct [OF d lt])
    have inv1: "liveness_invariant ?s1"
      using Cons.prems(1) lt by (rule erase_at_invariant)
    have len1: "length (data_vec ?s1) = n" using Cons.prems(2) by simp
    have set1: "set (alive_vec ?s1) = set (removeAll index live)"
      using Cons.prems(3) d by simp
    from Cons.IH [OF inv1 len1 set1 rest] step show ?thesis by simp
  qed
qed

lemma distinct_calls_take:
  "distinct_calls n live cs \<Longrightarrow> distinct_calls n live (take k cs)"
proof (induction n live cs arbitrary: k rule: distinct_calls.induct)
  case (1 n live)
  then show ?case by simp
next
  case (2 n live index v cs)
  then show ?case by (cases k) simp_all
next
  case (3 n live index cs)
  then show ?case by (cases k) simp_all
qed

lemma pairwise_distinct_targets:
  "distinct (map call_target cs) \<Longrightarrow> \<forall>c \<in> set cs. call_target c < n \<Longrightarrow>
   set live \<inter> set (map call_target cs) = {} \<Longrightarrow> distinct_calls n live cs"
proof (induction n live cs rule: distinct_calls.induct)
  case (1 n live)
  then show ?case by simp
next
  case (2 n live index v cs)
  then show ?case by auto
next
  case (3 n live index cs)
  then show ?case by auto
qed

lemma sized_store_invariant:
  "liveness_invariant (sparse_array_sized n) \<and> length (data_vec (sparse_array_sized n)) = n
   \<and> alive_vec (sparse_array_sized n) = []"
  by (simp add: liveness_invariant_def sparse_array_sized_def resize_def sparse_array_default_def)


text \<open>
  C1. Start from an empty store with \<open>n\<close> slots and make any sequence of emplace_at and
  erase_at calls whose indices are below \<open>n\<close> and in which emplace_at is never aimed at an
  index that is occupied at that moment (in particular any sequence whose calls all name
  different indices, by \<open>pairwise_distinct_targets\<close>). Then every call returns, and after
  each call, that is after every prefix of the sequence, the list of live indices has no
  duplicates, every index in it is the index of an occupied slot, the index of every
  occupied slot is in it exactly once, and size() is the number of occupied slots.
\<close>

theorem liveness_invariant_after_each_call:
  assumes "distinct_calls n [] cs"
  shows "\<exists>s. run_calls grow (take k cs) (sparse_array_sized n) = Inr s
             \<and> liveness_invariant s \<and> size_sa s = occupied_count s"
proof -
  have pre: "distinct_calls n [] (take k cs)" using assms by (rule distinct_calls_take)
  have "\<exists>s. run_calls grow (take k cs) (sparse_array_sized n) = Inr s
             \<and> liveness_invariant s \<and> length (data_vec s) = n"
    by (rule run_calls_invariant [OF _ _ _ pre]) (simp_all add: sized_store_invariant)
  then show ?thesis by (auto dest: size_is_occupied_count)
qed

theorem liveness_invariant_after_each_call_witness:
  "distinct_calls 4 [] [Emplace_at 1 (10::nat), Emplace_at 3 20, Erase_at 1, Emplace_at 1 30]
   \<and> (\<exists>s. run_calls Suc (take 3 [Emplace_at 1 (10::nat), Emplace_at 3 20, Erase_at 1, Emplace_at 1 30])
              (sparse_array_sized 4) = Inr s
            \<and> liveness_invariant s \<and> size_sa s = occupied_count s)"
proof -
  have ok: "distinct_calls 4 [] [Emplace_at 1 (10::nat), Emplace_at 3 20, Erase_at 1, Emplace_at 1 30]"
    by simp
  from liveness_invariant_after_each_call [OF ok, of Suc 3] ok show ?thesis by blast
qed

section \<open>emplace_at, at and the round trip\<close>

lemma at_update_same:
  "index < length (data_vec s) \<Longrightarrow>
   at (s\<lparr>data_vec := (data_vec s)[index := Some v]\<rparr>) index = Inr v"
  by (simp add: at_def value_unchecked_def)

lemma alive_vec_emplace_back [simp]:
  "alive_vec (emplace_back grow index s) = alive_vec s @ [index]"
  by (simp add: emplace_back_def)

lemma data_vec_emplace_back [simp]:
  "data_vec (emplace_back grow index s) = data_vec s"
  by (simp add: emplace_back_def)



text \<open>
  C6. For every index \<open>i\<close> below the number of slots: after emplace_at of \<open>v\<close> at \<open>i\<close>,
  at \<open>i\<close> returns \<open>v\<close>; whenever erase_at of \<open>i\<close> returns, a following emplace_at of
  \<open>v2\<close> at \<open>i\<close> makes at \<open>i\<close> return \<open>v2\<close>; erase_at does return when no index is listed
  twice; and on such a store with \<open>i\<close> not live the whole chain emplace_at, erase_at,
  emplace_at, at runs through and ends with \<open>v2\<close>.
\<close>

theorem emplace_erase_round_trip:
  assumes "i < length (data_vec s)"
  shows "(\<exists>s1. emplace_at grow i v s = Inr (v, s1) \<and> at s1 i = Inr v)
       \<and> (\<forall>s1. erase_at i s = Inr s1 \<longrightarrow>
             (\<exists>s2. emplace_at grow i v2 s1 = Inr (v2, s2) \<and> at s2 i = Inr v2))
       \<and> (distinct (alive_vec s) \<longrightarrow> (\<exists>s1. erase_at i s = Inr s1))
       \<and> (distinct (alive_vec s) \<and> i \<notin> set (alive_vec s) \<longrightarrow>
             (\<exists>s1 s2 s3. emplace_at grow i v s = Inr (v, s1) \<and> erase_at i s1 = Inr s2
                \<and> emplace_at grow i v2 s2 = Inr (v2, s3) \<and> at s3 i = Inr v2))"
proof (intro conjI allI impI)
  let ?s1 = "(emplace_back grow i s)\<lparr>data_vec := (data_vec s)[i := Some v]\<rparr>"
  have e1: "emplace_at grow i v s = Inr (v, ?s1)" using assms by (rule emplace_at_result)
  have a1: "at ?s1 i = Inr v" using assms by (simp add: at_def value_unchecked_def)
  show "\<exists>s1. emplace_at grow i v s = Inr (v, s1) \<and> at s1 i = Inr v"
    using e1 a1 by blast
  show "\<exists>s2. emplace_at grow i v2 s1 = Inr (v2, s2) \<and> at s2 i = Inr v2"
    if er: "erase_at i s = Inr s1" for s1
  proof -
    from erase_at_sound [OF er] have "data_vec s1 = (data_vec s)[i := None]" by simp
    then have lt: "i < length (data_vec s1)" using assms by simp
    let ?s2 = "(emplace_back grow i s1)\<lparr>data_vec := (data_vec s1)[i := Some v2]\<rparr>"
    have "emplace_at grow i v2 s1 = Inr (v2, ?s2)" using lt by (rule emplace_at_result)
    moreover have "at ?s2 i = Inr v2" using lt by (simp add: at_def value_unchecked_def)
    ultimately show ?thesis by blast
  qed
  show "\<exists>s1. erase_at i s = Inr s1" if "distinct (alive_vec s)"
    using erase_at_distinct [OF that assms] by simp
  show "\<exists>s1 s2 s3. emplace_at grow i v s = Inr (v, s1) \<and> erase_at i s1 = Inr s2
                \<and> emplace_at grow i v2 s2 = Inr (v2, s3) \<and> at s3 i = Inr v2"
    if h: "distinct (alive_vec s) \<and> i \<notin> set (alive_vec s)"
  proof -
    have d1: "distinct (alive_vec ?s1)" using h by simp
    have lt1: "i < length (data_vec ?s1)" using assms by simp
    let ?s2 = "?s1\<lparr>alive_vec := remove1 i (alive_vec ?s1), data_vec := (data_vec ?s1)[i := None]\<rparr>"
    have e2: "erase_at i ?s1 = Inr ?s2" using d1 lt1 by (rule erase_at_distinct)
    have lt2: "i < length (data_vec ?s2)" using assms by simp
    let ?s3 = "(emplace_back grow i ?s2)\<lparr>data_vec := (data_vec ?s2)[i := Some v2]\<rparr>"
    have e3: "emplace_at grow i v2 ?s2 = Inr (v2, ?s3)" using lt2 by (rule emplace_at_result)
    have a3: "at ?s3 i = Inr v2" using assms by (simp add: at_def value_unchecked_def)
    from e1 e2 e3 a3 show ?thesis by blast
  qed
qed

theorem emplace_erase_round_trip_witness:
  "1 < length (data_vec example_store)
   \<and> distinct (alive_vec example_store)
   \<and> 1 \<notin> set (alive_vec example_store)
   \<and> (\<exists>s1. emplace_at Suc 1 7 example_store = Inr (7, s1) \<and> at s1 1 = Inr 7)
   \<and> (\<exists>s1 s2. erase_at 1 example_store = Inr s1
          \<and> emplace_at Suc 1 9 s1 = Inr (9, s2) \<and> at s2 1 = Inr 9)
   \<and> (\<exists>s1 s2 s3. emplace_at Suc 1 7 example_store = Inr (7, s1)
          \<and> erase_at 1 s1 = Inr s2
          \<and> emplace_at Suc 1 9 s2 = Inr (9, s3) \<and> at s3 1 = Inr 9)"
proof -
  have h: "1 < length (data_vec example_store)"
    and d: "distinct (alive_vec example_store)"
    and n: "1 \<notin> set (alive_vec example_store)"
    by (simp_all add: example_store_def)
  from emplace_erase_round_trip [OF h, of Suc 7 9] h d n show ?thesis by blast
qed

section \<open>The frame of emplace_at, erase_at and resize\<close>

lemma count_list_filter_neq:
  "j \<noteq> k \<Longrightarrow> count_list (filter (\<lambda>x. x \<noteq> k) xs) j = count_list xs j"
  by (induction xs) auto

lemma erase_at_count_other:
  assumes "erase_at k s = Inr s'" "j \<noteq> k"
  shows "count_list (alive_vec s') j = count_list (alive_vec s) j"
proof -
  from erase_at_sound [OF assms(1)]
  have "filter (\<lambda>x. x \<noteq> k) (alive_vec s') = filter (\<lambda>x. x \<noteq> k) (alive_vec s)" by simp
  then have "count_list (filter (\<lambda>x. x \<noteq> k) (alive_vec s')) j
               = count_list (filter (\<lambda>x. x \<noteq> k) (alive_vec s)) j" by simp
  then show ?thesis using assms(2) by (simp add: count_list_filter_neq)
qed

lemma member_iff_count: "x \<in> set xs \<longleftrightarrow> count_list xs x \<noteq> 0"
  by (simp add: count_list_0_iff)

text \<open>
  C8. For different indices \<open>k\<close> and \<open>j\<close>, an emplace_at or erase_at aimed at \<open>k\<close> that
  returns leaves slot \<open>j\<close> as it was and lists \<open>j\<close> as often as before; emplace_at returns
  when \<open>k\<close> is below the number of slots, erase_at when moreover no index is listed
  twice. A resize to at least the present number of slots keeps every existing slot and
  the list of live indices.
\<close>

theorem other_slots_untouched:
  assumes "k \<noteq> j"
  shows "(\<forall>v r s'. emplace_at grow k v s = Inr (r, s') \<longrightarrow>
            data_vec s' ! j = data_vec s ! j
            \<and> count_list (alive_vec s') j = count_list (alive_vec s) j
            \<and> (j \<in> set (alive_vec s') \<longleftrightarrow> j \<in> set (alive_vec s)))
       \<and> (\<forall>s'. erase_at k s = Inr s' \<longrightarrow>
            data_vec s' ! j = data_vec s ! j
            \<and> count_list (alive_vec s') j = count_list (alive_vec s) j
            \<and> (j \<in> set (alive_vec s') \<longleftrightarrow> j \<in> set (alive_vec s)))
       \<and> (k < length (data_vec s) \<longrightarrow> (\<forall>v. \<exists>s'. emplace_at grow k v s = Inr (v, s')))
       \<and> (k < length (data_vec s) \<and> distinct (alive_vec s) \<longrightarrow> (\<exists>s'. erase_at k s = Inr s'))
       \<and> (\<forall>n. length (data_vec s) \<le> n \<longrightarrow>
            length (data_vec (resize n s)) = n
            \<and> take (length (data_vec s)) (data_vec (resize n s)) = data_vec s
            \<and> alive_vec (resize n s) = alive_vec s)"
proof (intro conjI allI impI)
  fix v r s' assume em: "emplace_at grow k v s = Inr (r, s')"
  have lt: "k < length (data_vec s)"
    using em emplace_at_error [of k s grow v] by (cases "k < length (data_vec s)") simp_all
  from em emplace_at_result [OF lt, of grow v]
  have s': "s' = (emplace_back grow k s)\<lparr>data_vec := (data_vec s)[k := Some v]\<rparr>" by auto
  show "data_vec s' ! j = data_vec s ! j" using assms by (simp add: s')
  show c: "count_list (alive_vec s') j = count_list (alive_vec s) j" using assms by (simp add: s')
  show "j \<in> set (alive_vec s') \<longleftrightarrow> j \<in> set (alive_vec s)"
    unfolding member_iff_count c ..
next
  fix s' assume er: "erase_at k s = Inr s'"
  from erase_at_sound [OF er] have "data_vec s' = (data_vec s)[k := None]" by simp
  then show "data_vec s' ! j = data_vec s ! j" using assms by simp
  show c: "count_list (alive_vec s') j = count_list (alive_vec s) j"
    using er assms by (simp add: erase_at_count_other)
  show "j \<in> set (alive_vec s') \<longleftrightarrow> j \<in> set (alive_vec s)"
    unfolding member_iff_count c ..
next
  fix v assume "k < length (data_vec s)"
  from emplace_at_result [OF this, of grow v]
  show "\<exists>s'. emplace_at grow k v s = Inr (v, s')" by blast
next
  assume "k < length (data_vec s) \<and> distinct (alive_vec s)"
  then show "\<exists>s'. erase_at k s = Inr s'"
    using erase_at_distinct [of s k] by simp
next
  fix n assume "length (data_vec s) \<le> n"
  then show "length (data_vec (resize n s)) = n"
    and "take (length (data_vec s)) (data_vec (resize n s)) = data_vec s"
    and "alive_vec (resize n s) = alive_vec s"
    by (simp_all add: resize_def)
qed

theorem other_slots_untouched_witness:
  "(0::nat) \<noteq> 2
   \<and> 0 < length (data_vec example_store)
   \<and> distinct (alive_vec example_store)
   \<and> (\<exists>s'. emplace_at Suc 0 7 example_store = Inr (7, s')
          \<and> data_vec s' ! 2 = Some 6 \<and> count_list (alive_vec s') 2 = 1)
   \<and> (\<exists>s'. erase_at 0 example_store = Inr s'
          \<and> data_vec s' ! 2 = Some 6 \<and> count_list (alive_vec s') 2 = 1)
   \<and> length (data_vec example_store) \<le> 5
   \<and> length (data_vec (resize 5 example_store)) = 5
   \<and> take (length (data_vec example_store)) (data_vec (resize 5 example_store))
       = data_vec example_store
   \<and> alive_vec (resize 5 example_store) = alive_vec example_store"
proof -
  have ne: "(0::nat) \<noteq> 2" by simp
  have h: "0 < length (data_vec example_store)"
    and le: "length (data_vec example_store) \<le> 5"
    and d: "distinct (alive_vec example_store)"
    and p: "data_vec example_store ! 2 = Some 6"
    and c: "count_list (alive_vec example_store) 2 = 1"
    by (simp_all add: example_store_def)
  note fr = other_slots_untouched [OF ne, of Suc example_store]
  from fr h obtain s1 where e1: "emplace_at Suc 0 7 example_store = Inr (7, s1)"
    by blast
  from fr h d obtain s2 where e2: "erase_at 0 example_store = Inr s2"
    by blast
  from fr e1 have f1: "data_vec s1 ! 2 = Some 6 \<and> count_list (alive_vec s1) 2 = 1"
    using p c by metis
  from fr e2 have f2: "data_vec s2 ! 2 = Some 6 \<and> count_list (alive_vec s2) 2 = 1"
    using p c by metis
  from fr le have f3: "length (data_vec (resize 5 example_store)) = 5
      \<and> take (length (data_vec example_store)) (data_vec (resize 5 example_store))
          = data_vec example_store
      \<and> alive_vec (resize 5 example_store) = alive_vec example_store"
    by blast
  from ne h d le e1 e2 f1 f2 f3 show ?thesis by blast
qed

section \<open>next_empty_index\<close>

lemma example_store_built:
  "run_calls grow [Emplace_at 0 5, Emplace_at 2 6] (sparse_array_sized 3) = Inr example_store"
  by (simp add: emplace_at_def emplace_back_def Let_def
      sparse_array_sized_def resize_def sparse_array_default_def example_store_def
      eval_nat_numeral)

lemma shrunk_store_built:
  "run_calls grow [Emplace_at 0 5, Emplace_at 1 6] (resize 2 (sparse_array_sized 3))
     = Inr shrunk_store"
  by (simp add: emplace_at_def emplace_back_def Let_def
      sparse_array_sized_def resize_def sparse_array_default_def shrunk_store_def
      eval_nat_numeral)

lemma duplicated_store_built:
  "run_calls grow [Emplace_at 0 1, Emplace_at 1 2, Emplace_at 0 3, Emplace_at 2 4]
     (sparse_array_sized 4) = Inr duplicated_store"
  by (simp add: emplace_at_def emplace_back_def Let_def
      sparse_array_sized_def resize_def sparse_array_default_def duplicated_store_def
      eval_nat_numeral)

lemma first_null_None: "first_null xs pos = None \<longleftrightarrow> list_all has_value xs"
  by (induction xs arbitrary: pos) (simp_all add: is_null_def)

lemma first_null_Some:
  "first_null xs pos = Some r \<Longrightarrow>
   pos \<le> r \<and> r - pos < length xs \<and> is_null (xs ! (r - pos))
   \<and> (\<forall>j < r - pos. has_value (xs ! j))"
proof (induction xs arbitrary: pos)
  case Nil
  then show ?case by simp
next
  case (Cons item rest)
  show ?case
  proof (cases "is_null item")
    case True
    with Cons.prems show ?thesis by simp
  next
    case False
    with Cons.prems have "first_null rest (Suc pos) = Some r" by simp
    from Cons.IH [OF this]
    have ih: "Suc pos \<le> r" "r - Suc pos < length rest" "is_null (rest ! (r - Suc pos))"
      "\<forall>j < r - Suc pos. has_value (rest ! j)" by simp_all
    from ih(1) have eq: "r - pos = Suc (r - Suc pos)" by simp
    have "has_value ((item # rest) ! j)" if "j < r - pos" for j
      using that False ih(4) eq by (cases j) (simp_all add: is_null_def)
    with ih eq show ?thesis by simp
  qed
qed

text \<open>
  C3, as amended. next_empty_index answers "no value" exactly when size() equals
  capacity() or no slot is empty; every index it returns is the lowest-numbered empty
  slot, and is returned only when size() differs from capacity().
\<close>

theorem next_empty_index_lowest_or_none:
  "(next_empty_index s = None \<longleftrightarrow> size_sa s = capacity s \<or> list_all has_value (data_vec s))
   \<and> (\<forall>i. next_empty_index s = Some i \<longrightarrow>
          size_sa s \<noteq> capacity s \<and> i < length (data_vec s) \<and> is_null (data_vec s ! i)
          \<and> (\<forall>j < i. has_value (data_vec s ! j)))"
proof (rule conjI)
  show "next_empty_index s = None \<longleftrightarrow> size_sa s = capacity s \<or> list_all has_value (data_vec s)"
    by (simp add: next_empty_index_def first_null_None)
next
  show "\<forall>i. next_empty_index s = Some i \<longrightarrow>
          size_sa s \<noteq> capacity s \<and> i < length (data_vec s) \<and> is_null (data_vec s ! i)
          \<and> (\<forall>j < i. has_value (data_vec s ! j))"
  proof (intro allI impI)
    fix i assume some: "next_empty_index s = Some i"
    then have ne: "size_sa s \<noteq> capacity s" by (auto simp: next_empty_index_def)
    with some have "first_null (data_vec s) 0 = Some i" by (simp add: next_empty_index_def)
    from first_null_Some [OF this] ne
    show "size_sa s \<noteq> capacity s \<and> i < length (data_vec s) \<and> is_null (data_vec s ! i)
          \<and> (\<forall>j < i. has_value (data_vec s ! j))" by simp
  qed
qed

text \<open>
  Without the second alternative C3 fails, on the store whose slots were cut back to two
  with three cells reserved: both slots are occupied, so the scan finds nothing and the answer is "no
  value", while size() is 2 and capacity() is 3.
\<close>

theorem next_empty_index_none_below_capacity:
  "next_empty_index shrunk_store = None \<and> size_sa shrunk_store \<noteq> capacity shrunk_store"
  by (simp add: next_empty_index_def size_sa_def capacity_def shrunk_store_def is_null_def)

theorem next_empty_index_lowest_or_none_witness:
  "next_empty_index example_store = Some 1
   \<and> size_sa example_store \<noteq> capacity example_store
   \<and> 1 < length (data_vec example_store)
   \<and> is_null (data_vec example_store ! 1)
   \<and> has_value (data_vec example_store ! 0)
   \<and> next_empty_index shrunk_store = None
   \<and> list_all has_value (data_vec shrunk_store)"
proof -
  have r: "next_empty_index example_store = Some 1"
    by (simp add: next_empty_index_def size_sa_def capacity_def example_store_def is_null_def)
  have n: "next_empty_index shrunk_store = None"
    by (simp add: next_empty_index_def size_sa_def capacity_def shrunk_store_def is_null_def)
  have ne: "size_sa shrunk_store \<noteq> capacity shrunk_store"
    by (simp add: size_sa_def capacity_def shrunk_store_def)
  from next_empty_index_lowest_or_none [of example_store] r
  have "size_sa example_store \<noteq> capacity example_store" "1 < length (data_vec example_store)"
    "is_null (data_vec example_store ! 1)" "\<forall>j<1. has_value (data_vec example_store ! j)"
    by blast+
  moreover from next_empty_index_lowest_or_none [of shrunk_store] n ne have "list_all has_value (data_vec shrunk_store)"
    by blast
  ultimately show ?thesis using r n by simp
qed

text \<open>
  On a store that satisfies the liveness invariant and has as many slots as reserved
  cells, the answer is "no value" exactly when size() equals capacity().
\<close>

lemma list_all_length_filter:
  "list_all P xs \<longleftrightarrow> length (filter P xs) = length xs"
proof (induction xs)
  case Nil
  then show ?case by simp
next
  case (Cons x xs)
  have le: "length (filter P xs) \<le> length xs" by simp
  show ?case
  proof (cases "P x")
    case True
    with Cons show ?thesis by simp
  next
    case False
    have "length (filter P xs) \<noteq> Suc (length xs)" using le by linarith
    with False show ?thesis by simp
  qed
qed

lemma next_empty_index_full_iff:
  assumes "liveness_invariant s" "length (data_vec s) = capacity s"
  shows "next_empty_index s = None \<longleftrightarrow> size_sa s = capacity s"
proof -
  have occ: "size_sa s = length (filter has_value (data_vec s))"
    using size_is_occupied_count [OF assms(1)] by (simp add: occupied_count_def)
  have "list_all has_value (data_vec s) \<longleftrightarrow> length (filter has_value (data_vec s)) = length (data_vec s)"
    by (rule list_all_length_filter)
  then show ?thesis
    using occ assms(2) by (auto simp: next_empty_index_def first_null_None)
qed

section \<open>Slots and reserved cells\<close>

text \<open>
  The constructors establish, and resize, emplace_at, erase_at and clear keep, that
  there are at least as many reserved cells as slots (for emplace_at: when the library
  never shrinks the reservation). So a store with a slot has a non-zero capacity().
\<close>

lemma slots_reserved_default: "slots_reserved sparse_array_default"
  by (simp add: slots_reserved_def sparse_array_default_def)

lemma slots_reserved_resize: "slots_reserved (resize n s)"
  by (simp add: slots_reserved_def resize_def)

lemma slots_reserved_emplace_at:
  assumes "slots_reserved s" "\<And>c. c \<le> grow c" "emplace_at grow index v s = Inr (r, s')"
  shows "slots_reserved s'"
proof -
  have lt: "index < length (data_vec s)"
    using assms(3) emplace_at_error [of index s grow v]
    by (cases "index < length (data_vec s)") simp_all
  from assms(3) emplace_at_result [OF lt, of grow v]
  have s': "s' = (emplace_back grow index s)\<lparr>data_vec := (data_vec s)[index := Some v]\<rparr>"
    by auto
  have "alive_cap s \<le> grow (alive_cap s)" by (rule assms(2))
  with assms(1) show ?thesis
    by (simp add: s' slots_reserved_def emplace_back_def)
qed

lemma slots_reserved_erase_at:
  assumes "slots_reserved s" "erase_at index s = Inr s'"
  shows "slots_reserved s'"
  using assms(1) erase_at_sound [OF assms(2)] by (simp add: slots_reserved_def)

lemma slots_reserved_clear: "slots_reserved s \<Longrightarrow> slots_reserved (clear s)"
  by (simp add: slots_reserved_def clear_def)

lemma slots_reserved_capacity:
  "slots_reserved s \<Longrightarrow> data_vec s \<noteq> [] \<Longrightarrow> capacity s \<noteq> 0"
  by (cases "data_vec s") (auto simp: slots_reserved_def capacity_def)

section \<open>clear\<close>

lemma map_option_reset: "map option_reset xs = replicate (length xs) None"
  by (induction xs) simp_all

text \<open>
  C7. clear empties every slot and the list of live indices and leaves capacity() and
  the number of slots as they were; afterwards size() is 0, and on a store with at least
  one slot and a non-zero capacity() next_empty_index returns index 0.
\<close>

theorem clear_empties_store:
  "alive_vec (clear s) = []
   \<and> data_vec (clear s) = replicate (length (data_vec s)) None
   \<and> capacity (clear s) = capacity s
   \<and> size_sa (clear s) = 0
   \<and> (data_vec s \<noteq> [] \<and> capacity s \<noteq> 0 \<longrightarrow> next_empty_index (clear s) = Some 0)"
proof (intro conjI impI)
  show "alive_vec (clear s) = []" by (simp add: clear_def)
  show "data_vec (clear s) = replicate (length (data_vec s)) None"
    by (simp add: clear_def map_option_reset)
  show "capacity (clear s) = capacity s" by (simp add: clear_def capacity_def)
  show "size_sa (clear s) = 0" by (simp add: clear_def size_sa_def)
  assume h: "data_vec s \<noteq> [] \<and> capacity s \<noteq> 0"
  then obtain item rest where d: "data_vec s = item # rest" by (cases "data_vec s") auto
  from h show "next_empty_index (clear s) = Some 0"
    by (simp add: next_empty_index_def size_sa_def capacity_def clear_def d is_null_def)
qed

theorem clear_empties_store_witness:
  "data_vec example_store \<noteq> [] \<and> capacity example_store \<noteq> 0
   \<and> alive_vec (clear example_store) = []
   \<and> data_vec (clear example_store) = [None, None, None]
   \<and> capacity (clear example_store) = 3
   \<and> size_sa (clear example_store) = 0
   \<and> next_empty_index (clear example_store) = Some 0"
proof -
  have h: "data_vec example_store \<noteq> [] \<and> capacity example_store \<noteq> 0"
    by (simp add: example_store_def capacity_def)
  have l: "replicate (length (data_vec example_store)) None = [None, None, None :: nat option]"
    by (simp add: example_store_def)
  have c: "capacity example_store = 3" by (simp add: example_store_def capacity_def)
  from clear_empties_store [of example_store] h l c show ?thesis by simp
qed

section \<open>erase_at on an index that is listed twice\<close>

text \<open>
  C2. erase_at is specified to remove only one occurrence of an index that is listed
  more than once. On the store where index 0 was emplaced twice, with the list of live
  indices \<open>[0, 1, 0, 2]\<close>, the loop erases at position 0, goes on to position 1, where
  the second 0 has moved to, and erases again: both occurrences are gone.
\<close>

theorem erase_at_duplicate_removes_both:
  "erase_at 0 duplicated_store
     = Inr \<lparr>data_vec = [None, Some 2, Some 4, None], alive_vec = [1, 2], alive_cap = 4\<rparr>"
  by (simp add: erase_at_def duplicated_store_def erase_loop.simps buffer_erase_def)

text \<open>
  What the loop does with a duplicate depends on where it stands: of two adjacent
  occurrences the second is stepped over, and when the duplicate is the last element the
  loop meets its stale copy beyond the end and erases there. Without duplicates erase_at
  does what is specified: \<open>erase_at_distinct\<close> above, and the no-op below.
\<close>

lemma erase_at_duplicate_pair_undefined:
  "erase_at 0 \<lparr>data_vec = [Some (3::nat), None], alive_vec = [0, 0], alive_cap = 2\<rparr>
     = Inl UndefinedBehaviour"
  by (simp add: erase_at_def erase_loop.simps buffer_erase_def)

lemma erase_at_adjacent_duplicate_removes_one:
  "erase_at 0 \<lparr>data_vec = [Some (3::nat), Some 4], alive_vec = [0, 0, 1], alive_cap = 3\<rparr>
     = Inr \<lparr>data_vec = [None, Some 4], alive_vec = [0, 1], alive_cap = 3\<rparr>"
  by (simp add: erase_at_def erase_loop.simps buffer_erase_def)

lemma erase_at_absent_empty:
  assumes "index \<notin> set (alive_vec s)" "index < length (data_vec s)" "is_null (data_vec s ! index)"
  shows "erase_at index s = Inr s"
proof -
  have "\<forall>q. 0 \<le> q \<and> q < length (alive_vec s) \<longrightarrow> alive_vec s ! q \<noteq> index"
    using assms(1) by auto
  then have "erase_loop index 0 (length (alive_vec s)) (alive_vec s) (length (alive_vec s))
               = Inr (alive_vec s, length (alive_vec s))"
    by (rule erase_loop_no_match)
  moreover have "(data_vec s)[index := None] = data_vec s"
    using assms(3) by (simp add: is_null_def has_value_iff list_update_same_conv [OF assms(2)])
  ultimately show ?thesis using assms(2) by (simp add: erase_at_def)
qed


section \<open>erase_if\<close>

lemma at_occupied:
  "i < length (data_vec s) \<Longrightarrow> has_value (data_vec s ! i) \<Longrightarrow> at s i = Inr (the (data_vec s ! i))"
  by (cases "data_vec s ! i") (simp_all add: at_def value_unchecked_def)

lemma matches_data_cong:
  "data_vec s1 ! i = data_vec s ! i \<Longrightarrow> length (data_vec s1) = length (data_vec s) \<Longrightarrow>
   matches f s1 i = matches f s i"
  by (simp add: matches_def at_def)

lemma matches_occupied:
  assumes "j < length (data_vec s)" "matches f s j"
  shows "has_value (data_vec s ! j)"
  using assms by (cases "data_vec s ! j") (simp_all add: matches_def at_def value_unchecked_def)

lemma matches_update_other:
  "i \<noteq> index \<Longrightarrow> matches f (s\<lparr>data_vec := (data_vec s)[index := x]\<rparr>) i = matches f s i"
  by (rule matches_data_cong) simp_all

lemma erasable_entries_Cons:
  assumes "erasable_entries f s (index # rest)"
  shows "index < length (data_vec s)" "has_value (data_vec s ! index)"
    "matches f s index \<Longrightarrow> index \<notin> set rest"
    "\<not> matches f s index \<Longrightarrow> erasable_entries f s rest"
proof -
  from assms show lt: "index < length (data_vec s)" and occ: "has_value (data_vec s ! index)"
    by (simp_all add: erasable_entries_def)
  show "index \<notin> set rest" if "matches f s index"
  proof -
    from assms that have "count_list (index # rest) index = 1"
      by (simp add: erasable_entries_def)
    then show ?thesis by (simp add: count_list_0_iff)
  qed
  show "erasable_entries f s rest" if nm: "\<not> matches f s index"
    unfolding erasable_entries_def
  proof (intro ballI conjI impI)
    fix i assume i: "i \<in> set rest"
    with assms show "i < length (data_vec s)" "has_value (data_vec s ! i)"
      by (simp_all add: erasable_entries_def)
    assume m: "matches f s i"
    with nm have "i \<noteq> index" by auto
    moreover from assms i m have "count_list (index # rest) i = 1"
      by (simp add: erasable_entries_def)
    ultimately show "count_list rest i = 1" by simp
  qed
qed

lemma erasable_entries_after_hit:
  assumes "erasable_entries f s (index # rest)" "index \<notin> set rest"
  shows "erasable_entries f (s\<lparr>data_vec := (data_vec s)[index := None]\<rparr>) rest"
  unfolding erasable_entries_def
proof (intro ballI conjI impI)
  let ?s1 = "s\<lparr>data_vec := (data_vec s)[index := None]\<rparr>"
  fix i assume i: "i \<in> set rest"
  with assms(2) have ne: "i \<noteq> index" by auto
  from assms(1) i have lt: "i < length (data_vec s)" and occ: "has_value (data_vec s ! i)"
    by (simp_all add: erasable_entries_def)
  show "i < length (data_vec ?s1)" using lt by simp
  show "has_value (data_vec ?s1 ! i)" using occ ne by simp
  assume "matches f ?s1 i"
  then have "matches f s i" using ne by (simp add: matches_update_other)
  with assms(1) i have "count_list (index # rest) i = 1" by (simp add: erasable_entries_def)
  with ne show "count_list rest i = 1" by simp
qed

lemma erase_if_scan_returns:
  assumes "erasable_entries f s xs"
  shows "\<exists>s'. erase_if_scan f xs s = Inr (filter (\<lambda>i. \<not> matches f s i) xs, xs, s')
           \<and> alive_vec s' = alive_vec s \<and> alive_cap s' = alive_cap s
           \<and> length (data_vec s') = length (data_vec s)
           \<and> (\<forall>j < length (data_vec s).
                 data_vec s' ! j = (if j \<in> set xs \<and> matches f s j then None else data_vec s ! j))"
  using assms
proof (induction xs arbitrary: s)
  case Nil
  then show ?case by simp
next
  case (Cons index rest)
  note ok = erasable_entries_Cons [OF Cons.prems]
  let ?v = "the (data_vec s ! index)"
  have atv: "at s index = Inr ?v" using ok(1,2) by (rule at_occupied)
  have hit: "matches f s index = f ?v" by (simp add: matches_def atv)
  show ?case
  proof (cases "f ?v")
    case False
    then have nm: "\<not> matches f s index" by (simp add: hit)
    have clo: "erase_if_closure f index s = Inr (False, s)"
      using False by (simp add: erase_if_closure_def atv)
    from Cons.IH [OF ok(4) [OF nm]] obtain s' where
      scan: "erase_if_scan f rest s = Inr (filter (\<lambda>i. \<not> matches f s i) rest, rest, s')"
      and al: "alive_vec s' = alive_vec s" and cap: "alive_cap s' = alive_cap s"
      and len: "length (data_vec s') = length (data_vec s)"
      and dat: "\<forall>j < length (data_vec s).
                 data_vec s' ! j = (if j \<in> set rest \<and> matches f s j then None else data_vec s ! j)"
      by blast
    have res: "erase_if_scan f (index # rest) s
                 = Inr (filter (\<lambda>i. \<not> matches f s i) (index # rest), index # rest, s')"
      using clo scan nm by simp
    have dat': "\<forall>j < length (data_vec s).
                 data_vec s' ! j
                   = (if j \<in> set (index # rest) \<and> matches f s j then None else data_vec s ! j)"
      using dat nm by auto
    from res al cap len dat' show ?thesis by blast
  next
    case True
    then have m: "matches f s index" by (simp add: hit)
    have fresh: "index \<notin> set rest" using ok(3) [OF m] .
    let ?s1 = "s\<lparr>data_vec := (data_vec s)[index := None]\<rparr>"
    have clo: "erase_if_closure f index s = Inr (True, ?s1)"
      using True by (simp add: erase_if_closure_def atv)
    have ok1: "erasable_entries f ?s1 rest"
      using Cons.prems fresh by (rule erasable_entries_after_hit)
    from Cons.IH [OF ok1] obtain s' where
      scan: "erase_if_scan f rest ?s1 = Inr (filter (\<lambda>i. \<not> matches f ?s1 i) rest, rest, s')"
      and al: "alive_vec s' = alive_vec ?s1" and cap: "alive_cap s' = alive_cap ?s1"
      and len: "length (data_vec s') = length (data_vec ?s1)"
      and dat: "\<forall>j < length (data_vec ?s1).
                 data_vec s' ! j
                   = (if j \<in> set rest \<and> matches f ?s1 j then None else data_vec ?s1 ! j)"
      by blast
    have mrest: "matches f ?s1 i = matches f s i" if "i \<noteq> index" for i
      using that by (rule matches_update_other)
    have "filter (\<lambda>i. \<not> matches f ?s1 i) rest = filter (\<lambda>i. \<not> matches f s i) rest"
    proof (rule filter_cong [OF refl])
      fix i assume "i \<in> set rest"
      with fresh have "i \<noteq> index" by auto
      then show "(\<not> matches f ?s1 i) = (\<not> matches f s i)" by (simp add: mrest)
    qed
    then have res: "erase_if_scan f (index # rest) s
                 = Inr (filter (\<lambda>i. \<not> matches f s i) (index # rest), index # rest, s')"
      using clo scan m by simp
    have dat': "data_vec s' ! j
                  = (if j \<in> set (index # rest) \<and> matches f s j then None else data_vec s ! j)"
      if j: "j < length (data_vec s)" for j
    proof (cases "j = index")
      case True
      have "data_vec s' ! index = data_vec ?s1 ! index"
        using dat ok(1) fresh by simp
      also have "\<dots> = None" using ok(1) by simp
      finally show ?thesis using True m by simp
    next
      case False
      have "data_vec s' ! j = (if j \<in> set rest \<and> matches f ?s1 j then None else data_vec ?s1 ! j)"
        using dat j by simp
      then show ?thesis using False mrest [OF False] by simp
    qed
    have alls: "\<forall>j < length (data_vec s).
                 data_vec s' ! j
                   = (if j \<in> set (index # rest) \<and> matches f s j then None else data_vec s ! j)"
      using dat' by blast
    from res al cap len alls show ?thesis by simp
  qed
qed

lemma erase_if_scan_defined:
  "erase_if_scan f xs s = Inr r \<Longrightarrow> erasable_entries f s xs"
proof (induction xs arbitrary: s r)
  case Nil
  then show ?case by (simp add: erasable_entries_def)
next
  case (Cons index rest)
  from Cons.prems obtain hit s1 r1 where
    clo: "erase_if_closure f index s = Inr (hit, s1)"
    and scan: "erase_if_scan f rest s1 = Inr r1"
    by (auto split: sum.splits prod.splits)
  from clo obtain v where atv: "at s index = Inr v"
    by (auto simp: erase_if_closure_def split: sum.splits)
  then have lt: "index < length (data_vec s)" and occ: "has_value (data_vec s ! index)"
    and dv: "data_vec s ! index = Some v"
    by (auto simp: at_def value_unchecked_def split: if_splits option.splits)
  have hitv: "hit = f v" and m: "matches f s index = f v"
    using clo atv by (auto simp: erase_if_closure_def matches_def split: if_splits)
  have s1: "s1 = (if f v then s\<lparr>data_vec := (data_vec s)[index := None]\<rparr> else s)"
    using clo atv by (auto simp: erase_if_closure_def split: if_splits)
  from Cons.IH [OF scan] have ok1: "erasable_entries f s1 rest" .
  have fresh: "index \<notin> set rest" if "f v"
  proof
    assume "index \<in> set rest"
    with ok1 have "has_value (data_vec s1 ! index)" by (simp add: erasable_entries_def)
    with that lt show False by (simp add: s1)
  qed
  have same: "data_vec s1 ! i = data_vec s ! i" if "i \<in> set rest" for i
  proof (cases "f v")
    case True
    with fresh that have "i \<noteq> index" by auto
    with True show ?thesis by (simp add: s1)
  next
    case False
    then show ?thesis by (simp add: s1)
  qed
  have len1: "length (data_vec s1) = length (data_vec s)" by (simp add: s1)
  show ?case
    unfolding erasable_entries_def
  proof (intro ballI conjI impI)
    fix i assume i: "i \<in> set (index # rest)"
    show "i < length (data_vec s)"
    proof (cases "i = index")
      case True then show ?thesis using lt by simp
    next
      case False
      with i have "i \<in> set rest" by simp
      with ok1 len1 show ?thesis by (simp add: erasable_entries_def)
    qed
    show "has_value (data_vec s ! i)"
    proof (cases "i = index")
      case True then show ?thesis using occ by simp
    next
      case False
      with i have ir: "i \<in> set rest" by simp
      with ok1 have "has_value (data_vec s1 ! i)" by (simp add: erasable_entries_def)
      then show ?thesis using same [OF ir] by simp
    qed
    assume mi: "matches f s i"
    show "count_list (index # rest) i = 1"
    proof (cases "i = index")
      case True
      with mi m have "f v" by simp
      from fresh [OF this] True show ?thesis by simp
    next
      case False
      with i have ir: "i \<in> set rest" by simp
      have "matches f s1 i = matches f s i"
        using same [OF ir] len1 by (intro matches_data_cong) simp_all
      with mi ok1 ir have "count_list rest i = 1" by (simp add: erasable_entries_def)
      with False show ?thesis by simp
    qed
  qed
qed

lemma liveness_invariant_erasable:
  assumes "liveness_invariant s"
  shows "erasable_entries f s (alive_vec s)"
proof -
  from assms have d: "distinct (alive_vec s)"
    and m: "\<And>i. i \<in> set (alive_vec s) \<longleftrightarrow> i < length (data_vec s) \<and> has_value (data_vec s ! i)"
    by (simp_all add: liveness_invariant_mem)
  show ?thesis
    unfolding erasable_entries_def
  proof (intro ballI conjI impI)
    fix i assume i: "i \<in> set (alive_vec s)"
    then show "i < length (data_vec s)" "has_value (data_vec s ! i)" using m by simp_all
    from d i have "count_list (alive_vec s) i = Suc 0" by (simp add: distinct_count_list_one)
    then show "count_list (alive_vec s) i = 1" by simp
  qed
qed
text \<open>
  On a store that satisfies the liveness invariant erase_if returns, with the results
  stated below, and the invariant holds again afterwards.
\<close>

lemma erase_if_under_invariant:
  assumes "liveness_invariant s"
  shows "\<exists>s'. erase_if f s = Inr s'
           \<and> alive_vec s' = filter (\<lambda>i. \<not> matches f s i) (alive_vec s)
           \<and> length (data_vec s') = length (data_vec s)
           \<and> (\<forall>j < length (data_vec s).
                 data_vec s' ! j = (if matches f s j then None else data_vec s ! j))
           \<and> size_sa s' + length (filter (matches f s) (alive_vec s)) = size_sa s
           \<and> erase_if_calls f s = Inr (alive_vec s)
           \<and> distinct (alive_vec s)
           \<and> liveness_invariant s'"
proof -
  from assms have d: "distinct (alive_vec s)"
    and m: "\<And>i. i \<in> set (alive_vec s) \<longleftrightarrow> i < length (data_vec s) \<and> has_value (data_vec s ! i)"
    by (simp_all add: liveness_invariant_mem)
  have occ: "\<forall>i \<in> set (alive_vec s). i < length (data_vec s) \<and> has_value (data_vec s ! i)"
    using m by blast
  from erase_if_scan_returns [OF liveness_invariant_erasable [OF assms, of f]] obtain s1 where
    scan: "erase_if_scan f (alive_vec s) s
             = Inr (filter (\<lambda>i. \<not> matches f s i) (alive_vec s), alive_vec s, s1)"
    and len: "length (data_vec s1) = length (data_vec s)"
    and dat: "\<forall>j < length (data_vec s).
                 data_vec s1 ! j
                   = (if j \<in> set (alive_vec s) \<and> matches f s j then None else data_vec s ! j)"
    by blast
  let ?kept = "filter (\<lambda>i. \<not> matches f s i) (alive_vec s)"
  let ?s' = "s1\<lparr>alive_vec := ?kept\<rparr>"
  have run: "erase_if f s = Inr ?s'" by (simp add: erase_if_def scan)
  have calls: "erase_if_calls f s = Inr (alive_vec s)" by (simp add: erase_if_calls_def scan)
  have dat': "data_vec ?s' ! j = (if matches f s j then None else data_vec s ! j)"
    if j: "j < length (data_vec s)" for j
  proof -
    have "matches f s j \<Longrightarrow> j \<in> set (alive_vec s)"
      using matches_occupied [OF j] m [of j] j by blast
    then show ?thesis using dat j by auto
  qed
  have sz: "size_sa ?s' + length (filter (matches f s) (alive_vec s)) = size_sa s"
    using sum_length_filter_compl [of "matches f s" "alive_vec s"] by (simp add: size_sa_def)
  have inv: "liveness_invariant ?s'"
  proof -
    have "distinct ?kept" using d by simp
    moreover have "i \<in> set ?kept \<longleftrightarrow> i < length (data_vec ?s') \<and> has_value (data_vec ?s' ! i)" for i
    proof (cases "i < length (data_vec s)")
      case True
      from dat' [OF True] show ?thesis using m [of i] True len by auto
    next
      case False
      then show ?thesis using m [of i] len by auto
    qed
    ultimately show ?thesis by (simp add: liveness_invariant_mem)
  qed
  show ?thesis
    apply (rule exI [of _ ?s'])
    apply (intro conjI run calls d inv sz)
      apply simp
     apply (simp add: len)
    apply (intro allI impI)
    apply (erule dat')
    done
qed

text \<open>
  C4, as amended. erase_if with a predicate \<open>f\<close> returns exactly when every listed index
  is the index of an occupied slot and no index whose payload satisfies \<open>f\<close> is listed
  more than once; it does so on every store that satisfies the liveness invariant, and
  the invariant holds again afterwards. Whenever it returns, the live indices it keeps
  are the entries whose payload did not satisfy \<open>f\<close> when the call began, in their old
  order; the slots of the others are empty and every other slot is as before; size()
  has gone down by the number of matching entries; and \<open>f\<close> was invoked once for every
  entry of the list as it stood when the call began, in list order, so an index that is
  listed twice is asked twice.
\<close>

theorem erase_if_removes_matching_entries:
  "((\<exists>s'. erase_if f s = Inr s') \<longleftrightarrow> erasable_entries f s (alive_vec s))
   \<and> (\<forall>s'. erase_if f s = Inr s' \<longrightarrow>
          alive_vec s' = filter (\<lambda>i. \<not> matches f s i) (alive_vec s)
          \<and> length (data_vec s') = length (data_vec s)
          \<and> (\<forall>j < length (data_vec s).
                data_vec s' ! j
                  = (if j \<in> set (alive_vec s) \<and> matches f s j then None else data_vec s ! j))
          \<and> size_sa s' + length (filter (matches f s) (alive_vec s)) = size_sa s
          \<and> erase_if_calls f s = Inr (alive_vec s))
   \<and> (liveness_invariant s \<longrightarrow> (\<exists>s'. erase_if f s = Inr s' \<and> liveness_invariant s'))"
proof (intro conjI)
  show "(\<exists>s'. erase_if f s = Inr s') \<longleftrightarrow> erasable_entries f s (alive_vec s)"
  proof
    assume "\<exists>s'. erase_if f s = Inr s'"
    then obtain r where "erase_if_scan f (alive_vec s) s = Inr r"
      by (auto simp: erase_if_def split: sum.splits)
    then show "erasable_entries f s (alive_vec s)" by (rule erase_if_scan_defined)
  next
    assume "erasable_entries f s (alive_vec s)"
    from erase_if_scan_returns [OF this] show "\<exists>s'. erase_if f s = Inr s'"
      by (auto simp: erase_if_def)
  qed
next
  show "\<forall>s'. erase_if f s = Inr s' \<longrightarrow>
          alive_vec s' = filter (\<lambda>i. \<not> matches f s i) (alive_vec s)
          \<and> length (data_vec s') = length (data_vec s)
          \<and> (\<forall>j < length (data_vec s).
                data_vec s' ! j
                  = (if j \<in> set (alive_vec s) \<and> matches f s j then None else data_vec s ! j))
          \<and> size_sa s' + length (filter (matches f s) (alive_vec s)) = size_sa s
          \<and> erase_if_calls f s = Inr (alive_vec s)"
  proof (intro allI impI)
    fix s' assume run: "erase_if f s = Inr s'"
    then obtain r where "erase_if_scan f (alive_vec s) s = Inr r"
      by (auto simp: erase_if_def split: sum.splits)
    then have "erasable_entries f s (alive_vec s)" by (rule erase_if_scan_defined)
    from erase_if_scan_returns [OF this] obtain s1 where
      scan: "erase_if_scan f (alive_vec s) s
               = Inr (filter (\<lambda>i. \<not> matches f s i) (alive_vec s), alive_vec s, s1)"
      and len: "length (data_vec s1) = length (data_vec s)"
      and dat: "\<forall>j < length (data_vec s).
                  data_vec s1 ! j
                    = (if j \<in> set (alive_vec s) \<and> matches f s j then None else data_vec s ! j)"
      by blast
    from run scan have s': "s' = s1\<lparr>alive_vec := filter (\<lambda>i. \<not> matches f s i) (alive_vec s)\<rparr>"
      by (simp add: erase_if_def)
    have calls: "erase_if_calls f s = Inr (alive_vec s)" by (simp add: erase_if_calls_def scan)
    have sz: "size_sa s' + length (filter (matches f s) (alive_vec s)) = size_sa s"
      using sum_length_filter_compl [of "matches f s" "alive_vec s"]
      by (simp add: size_sa_def s')
    show "alive_vec s' = filter (\<lambda>i. \<not> matches f s i) (alive_vec s)
          \<and> length (data_vec s') = length (data_vec s)
          \<and> (\<forall>j < length (data_vec s).
                data_vec s' ! j
                  = (if j \<in> set (alive_vec s) \<and> matches f s j then None else data_vec s ! j))
          \<and> size_sa s' + length (filter (matches f s) (alive_vec s)) = size_sa s
          \<and> erase_if_calls f s = Inr (alive_vec s)"
      using len dat sz calls by (simp add: s')
  qed
next
  show "liveness_invariant s \<longrightarrow> (\<exists>s'. erase_if f s = Inr s' \<and> liveness_invariant s')"
    using erase_if_under_invariant [of s f] by blast
qed

text \<open>
  For every store, C4 fails: on the store where index 0 was emplaced twice, erase_if with
  the predicate "equals 2" returns, having removed index 1, and has asked the predicate
  at index 0 twice.
\<close>

theorem erase_if_asks_duplicate_twice:
  "erase_if (\<lambda>v. v = 2) duplicated_store
     = Inr \<lparr>data_vec = [Some 3, None, Some 4, None], alive_vec = [0, 0, 2], alive_cap = 4\<rparr>
   \<and> erase_if_calls (\<lambda>v. v = 2) duplicated_store = Inr [0, 1, 0, 2]"
  by (simp add: erase_if_def erase_if_calls_def erase_if_closure_def at_def value_unchecked_def
      duplicated_store_def)

theorem erase_if_removes_matching_entries_witness:
  "erasable_entries (\<lambda>v. v = 5) example_store (alive_vec example_store)
   \<and> liveness_invariant example_store
   \<and> (\<exists>s'. erase_if (\<lambda>v. v = 5) example_store = Inr s'
          \<and> alive_vec s' = [2]
          \<and> data_vec s' = [None, None, Some 6]
          \<and> size_sa s' = 1
          \<and> liveness_invariant s')
   \<and> erase_if_calls (\<lambda>v. v = 5) example_store = Inr [0, 2]"
proof -
  let ?f = "\<lambda>v::nat. v = 5"
  have inv: "liveness_invariant example_store"
    by (simp add: liveness_invariant_def example_store_def)
  have m: "matches ?f example_store 0" "\<not> matches ?f example_store 1"
    "\<not> matches ?f example_store 2"
    by (simp_all add: matches_def at_def value_unchecked_def example_store_def)
  have a: "alive_vec example_store = [0, 2]"
    and dv: "data_vec example_store = [Some 5, None, Some 6]"
    by (simp_all add: example_store_def)
  have ok: "erasable_entries ?f example_store (alive_vec example_store)"
    using m by (simp add: erasable_entries_def a dv)
  note th = erase_if_removes_matching_entries [of ?f example_store]
  from th inv obtain s' where run: "erase_if ?f example_store = Inr s'"
    and inv': "liveness_invariant s'" by blast
  from th run have
    al: "alive_vec s' = filter (\<lambda>i. \<not> matches ?f example_store i) (alive_vec example_store)"
    and len: "length (data_vec s') = length (data_vec example_store)"
    and dat: "\<forall>j < length (data_vec example_store).
                 data_vec s' ! j = (if j \<in> set (alive_vec example_store) \<and> matches ?f example_store j
                                    then None else data_vec example_store ! j)"
    and calls: "erase_if_calls ?f example_store = Inr (alive_vec example_store)"
    by blast+
  have al': "alive_vec s' = [2]" using al m by (simp add: a)
  have "data_vec s' ! 0 = None" "data_vec s' ! 1 = None" "data_vec s' ! 2 = Some 6"
    using dat m by (simp_all add: dv a)
  with len have dv': "data_vec s' = [None, None, Some 6]"
    by (simp add: dv list_eq_iff_nth_eq less_Suc_eq eval_nat_numeral)
  have sz: "size_sa s' = 1" by (simp add: size_sa_def al')
  have c: "erase_if_calls ?f example_store = Inr [0, 2]" using calls by (simp only: a)
  from ok inv run al' dv' sz inv' c show ?thesis by blast
qed

section \<open>for_each\<close>

lemma reversed_store_built:
  "run_calls grow [Emplace_at 2 6, Emplace_at 0 5] (sparse_array_sized 3) = Inr reversed_store"
  by (simp add: emplace_at_def emplace_back_def Let_def
      sparse_array_sized_def resize_def sparse_array_default_def reversed_store_def
      eval_nat_numeral)

lemma for_each_loop_result:
  assumes "distinct xs" "\<forall>i \<in> set xs. i < length (data_vec s) \<and> has_value (data_vec s ! i)"
  shows "\<exists>s'. for_each_loop f xs s = Inr (map (\<lambda>i. (the (data_vec s ! i), i)) xs, s')
           \<and> alive_vec s' = alive_vec s \<and> alive_cap s' = alive_cap s
           \<and> length (data_vec s') = length (data_vec s)
           \<and> (\<forall>j < length (data_vec s).
                 data_vec s' ! j
                   = (if j \<in> set xs then Some (f (the (data_vec s ! j)) j) else data_vec s ! j))"
  using assms
proof (induction xs arbitrary: s)
  case Nil
  then show ?case by simp
next
  case (Cons index rest)
  from Cons.prems have lt: "index < length (data_vec s)" and occ: "has_value (data_vec s ! index)"
    and fresh: "index \<notin> set rest" and drest: "distinct rest" by simp_all
  let ?v = "the (data_vec s ! index)"
  have atv: "at s index = Inr ?v" using lt occ by (rule at_occupied)
  let ?s1 = "s\<lparr>data_vec := (data_vec s)[index := Some (f ?v index)]\<rparr>"
  have len1: "length (data_vec ?s1) = length (data_vec s)" by simp
  have same: "data_vec ?s1 ! i = data_vec s ! i" if "i \<noteq> index" for i
    using that by simp
  have pre1: "\<forall>i \<in> set rest. i < length (data_vec ?s1) \<and> has_value (data_vec ?s1 ! i)"
  proof
    fix i assume i: "i \<in> set rest"
    then have "i \<noteq> index" using fresh by auto
    with Cons.prems(2) i same [of i] len1 show "i < length (data_vec ?s1) \<and> has_value (data_vec ?s1 ! i)"
      by (metis list.set_intros(2))
  qed
  from Cons.IH [OF drest pre1] obtain s' where
    loop: "for_each_loop f rest ?s1 = Inr (map (\<lambda>i. (the (data_vec ?s1 ! i), i)) rest, s')"
    and al: "alive_vec s' = alive_vec ?s1" and cap: "alive_cap s' = alive_cap ?s1"
    and len: "length (data_vec s') = length (data_vec ?s1)"
    and dat: "\<forall>j < length (data_vec ?s1).
                 data_vec s' ! j
                   = (if j \<in> set rest then Some (f (the (data_vec ?s1 ! j)) j) else data_vec ?s1 ! j)"
    by blast
  have mp: "map (\<lambda>i. (the (data_vec ?s1 ! i), i)) rest = map (\<lambda>i. (the (data_vec s ! i), i)) rest"
  proof (rule map_cong [OF refl])
    fix i assume "i \<in> set rest"
    with fresh have "i \<noteq> index" by auto
    then show "(the (data_vec ?s1 ! i), i) = (the (data_vec s ! i), i)" using same [of i] by simp
  qed
  have res: "for_each_loop f (index # rest) s
               = Inr (map (\<lambda>i. (the (data_vec s ! i), i)) (index # rest), s')"
    using atv loop mp by simp
  have dat': "data_vec s' ! j
                = (if j \<in> set (index # rest) then Some (f (the (data_vec s ! j)) j) else data_vec s ! j)"
    if j: "j < length (data_vec s)" for j
  proof (cases "j = index")
    case True
    have "data_vec s' ! index = data_vec ?s1 ! index"
      using dat lt fresh len1 by simp
    also have "\<dots> = Some (f ?v index)" using lt by simp
    finally show ?thesis using True by simp
  next
    case False
    have "data_vec s' ! j
            = (if j \<in> set rest then Some (f (the (data_vec ?s1 ! j)) j) else data_vec ?s1 ! j)"
      using dat j len1 by simp
    also have "\<dots> = (if j \<in> set rest then Some (f (the (data_vec s ! j)) j) else data_vec s ! j)"
      using same [OF False] by simp
    finally show ?thesis using False by simp
  qed
  show ?case
    apply (rule exI [of _ s'])
    apply (intro conjI)
        apply (rule res)
       apply (simp add: al)
      apply (simp add: cap)
     apply (simp add: len)
    apply (intro allI impI)
    apply (erule dat')
    done
qed

text \<open>
  On a store that satisfies the liveness invariant for_each returns and has visited the
  index of every occupied slot once, with the payload the slot held.
\<close>

lemma for_each_under_invariant:
  assumes "liveness_invariant s"
  shows "\<exists>s'. for_each f s = Inr (map (\<lambda>i. (the (data_vec s ! i), i)) (alive_vec s), s')
           \<and> alive_vec s' = alive_vec s
           \<and> distinct (alive_vec s)
           \<and> (\<forall>j < length (data_vec s).
                 count_list (alive_vec s) j = (if has_value (data_vec s ! j) then 1 else 0))
           \<and> length (data_vec s') = length (data_vec s)
           \<and> (\<forall>j < length (data_vec s).
                 data_vec s' ! j
                   = (if has_value (data_vec s ! j) then Some (f (the (data_vec s ! j)) j)
                      else data_vec s ! j))"
proof -
  from assms have d: "distinct (alive_vec s)"
    and m: "\<And>i. i \<in> set (alive_vec s) \<longleftrightarrow> i < length (data_vec s) \<and> has_value (data_vec s ! i)"
    by (simp_all add: liveness_invariant_mem)
  have occ: "\<forall>i \<in> set (alive_vec s). i < length (data_vec s) \<and> has_value (data_vec s ! i)"
    using m by blast
  from for_each_loop_result [OF d occ, of f] obtain s' where
    loop: "for_each_loop f (alive_vec s) s
             = Inr (map (\<lambda>i. (the (data_vec s ! i), i)) (alive_vec s), s')"
    and al: "alive_vec s' = alive_vec s"
    and len: "length (data_vec s') = length (data_vec s)"
    and dat: "\<forall>j < length (data_vec s).
                 data_vec s' ! j
                   = (if j \<in> set (alive_vec s) then Some (f (the (data_vec s ! j)) j)
                      else data_vec s ! j)"
    by blast
  have cnt: "count_list (alive_vec s) j = (if has_value (data_vec s ! j) then 1 else 0)"
    if j: "j < length (data_vec s)" for j
  proof (cases "has_value (data_vec s ! j)")
    case True
    with m [of j] j have "j \<in> set (alive_vec s)" by simp
    with d have "count_list (alive_vec s) j = Suc 0" by (simp add: distinct_count_list_one)
    with True show ?thesis by simp
  next
    case False
    with m [of j] have "j \<notin> set (alive_vec s)" by simp
    with False show ?thesis by simp
  qed
  have dat': "data_vec s' ! j
                = (if has_value (data_vec s ! j) then Some (f (the (data_vec s ! j)) j)
                   else data_vec s ! j)"
    if j: "j < length (data_vec s)" for j
    using dat j m [of j] by simp
  show ?thesis
    apply (rule exI [of _ s'])
    apply (intro conjI al d len)
      apply (simp add: for_each_def loop)
     apply (intro allI impI)
     apply (erule cnt)
    apply (intro allI impI)
    apply (erule dat')
    done
qed

lemma visitable_entries_Cons:
  "visitable_entries s (index # rest) \<longleftrightarrow>
     index < length (data_vec s) \<and> has_value (data_vec s ! index) \<and> visitable_entries s rest"
  by (auto simp: visitable_entries_def)

lemma visitable_entries_update:
  assumes "index < length (data_vec s)" "has_value (data_vec s ! index)"
  shows "visitable_entries (s\<lparr>data_vec := (data_vec s)[index := Some x]\<rparr>) xs
           \<longleftrightarrow> visitable_entries s xs"
  unfolding visitable_entries_def
proof (intro ball_cong refl)
  fix i assume "i \<in> set xs"
  show "(i < length (data_vec (s\<lparr>data_vec := (data_vec s)[index := Some x]\<rparr>))
          \<and> has_value (data_vec (s\<lparr>data_vec := (data_vec s)[index := Some x]\<rparr>) ! i))
        = (i < length (data_vec s) \<and> has_value (data_vec s ! i))"
    using assms by (cases "i = index") simp_all
qed

lemma for_each_loop_returns:
  "visitable_entries s xs \<Longrightarrow> \<exists>calls s'. for_each_loop f xs s = Inr (calls, s')"
proof (induction xs arbitrary: s)
  case Nil
  then show ?case by simp
next
  case (Cons index rest)
  then have lt: "index < length (data_vec s)" and occ: "has_value (data_vec s ! index)"
    and vr: "visitable_entries s rest" by (simp_all add: visitable_entries_Cons)
  let ?v = "the (data_vec s ! index)"
  let ?s1 = "s\<lparr>data_vec := (data_vec s)[index := Some (f ?v index)]\<rparr>"
  have atv: "at s index = Inr ?v" using lt occ by (rule at_occupied)
  have "visitable_entries ?s1 rest" using vr by (simp add: visitable_entries_update [OF lt occ])
  from Cons.IH [OF this] obtain calls s' where "for_each_loop f rest ?s1 = Inr (calls, s')"
    by blast
  then show ?case using atv by simp
qed

lemma funpow_after: "(g ^^ c) (g v) = (g ^^ Suc c) v"
  by (simp add: funpow_swap1)

lemma for_each_loop_sound:
  assumes "for_each_loop f xs s = Inr (calls, s')"
  shows "map snd calls = xs \<and> visitable_entries s xs
         \<and> alive_vec s' = alive_vec s \<and> alive_cap s' = alive_cap s
         \<and> length (data_vec s') = length (data_vec s)
         \<and> (\<forall>j. j \<notin> set xs \<longrightarrow> data_vec s' ! j = data_vec s ! j)
         \<and> (\<forall>k < length xs.
               calls ! k
                 = (((\<lambda>v. f v (xs ! k)) ^^ count_list (take k xs) (xs ! k))
                      (the (data_vec s ! (xs ! k))), xs ! k))"
  using assms
proof (induction xs arbitrary: s calls)
  case Nil
  then show ?case by (simp add: visitable_entries_def)
next
  case (Cons index rest)
  from Cons.prems obtain v where atv: "at s index = Inr v"
    by (auto split: sum.splits)
  then have lt: "index < length (data_vec s)" and dv: "data_vec s ! index = Some v"
    by (auto simp: at_def value_unchecked_def split: if_splits option.splits)
  then have occ: "has_value (data_vec s ! index)" by simp
  let ?s1 = "s\<lparr>data_vec := (data_vec s)[index := Some (f v index)]\<rparr>"
  from Cons.prems atv obtain calls1 where
    loop: "for_each_loop f rest ?s1 = Inr (calls1, s')" and calls: "calls = (v, index) # calls1"
    by (auto split: sum.splits)
  from Cons.IH [OF loop]
  have ih: "map snd calls1 = rest" "visitable_entries ?s1 rest"
    "alive_vec s' = alive_vec ?s1" "alive_cap s' = alive_cap ?s1"
    "length (data_vec s') = length (data_vec ?s1)"
    "\<forall>j. j \<notin> set rest \<longrightarrow> data_vec s' ! j = data_vec ?s1 ! j"
    "\<forall>k < length rest.
        calls1 ! k
          = (((\<lambda>v. f v (rest ! k)) ^^ count_list (take k rest) (rest ! k))
               (the (data_vec ?s1 ! (rest ! k))), rest ! k)"
    by simp_all
  have vis: "visitable_entries s (index # rest)"
    using ih(2) lt occ by (simp add: visitable_entries_Cons visitable_entries_update [OF lt occ])
  have frame: "\<forall>j. j \<notin> set (index # rest) \<longrightarrow> data_vec s' ! j = data_vec s ! j"
    using ih(6) by simp
  have pay: "calls ! k
               = (((\<lambda>v. f v ((index # rest) ! k)) ^^ count_list (take k (index # rest)) ((index # rest) ! k))
                    (the (data_vec s ! ((index # rest) ! k))), (index # rest) ! k)"
    if k: "k < length (index # rest)" for k
  proof (cases k)
    case 0
    then show ?thesis by (simp add: calls dv)
  next
    case (Suc k')
    with k have k': "k' < length rest" by simp
    let ?i = "rest ! k'"
    let ?c = "count_list (take k' rest) ?i"
    have c1: "calls1 ! k' = (((\<lambda>v. f v ?i) ^^ ?c) (the (data_vec ?s1 ! ?i)), ?i)"
      using ih(7) k' by simp
    show ?thesis
    proof (cases "?i = index")
      case True
      have p1: "the (data_vec ?s1 ! ?i) = f v ?i" using True lt by simp
      have p0: "the (data_vec s ! ?i) = v" using True dv by simp
      have "((\<lambda>v. f v ?i) ^^ ?c) (the (data_vec ?s1 ! ?i))
                   = ((\<lambda>v. f v ?i) ^^ Suc ?c) (the (data_vec s ! ?i))"
        unfolding p1 p0 using funpow_after [where g = "\<lambda>v. f v ?i" and c = ?c and v = v] by simp
      with c1 True show ?thesis by (simp add: Suc calls)
    next
      case False
      then have "data_vec ?s1 ! ?i = data_vec s ! ?i" by simp
      with c1 False show ?thesis by (simp add: Suc calls)
    qed
  qed
  from ih(1,3,4,5) vis frame pay show ?case by (simp add: calls)
qed

text \<open>
  C9, as amended. for_each returns exactly when every listed index is the index of an
  occupied slot, and so on every store that satisfies the liveness invariant. Whenever it
  returns, it has invoked the visitor once for every entry of the list of live indices,
  in list order, which is the order of insertion and need not be ascending (on
  \<open>reversed_store\<close> slot 2 is visited before slot 0); an index that is listed twice is
  visited twice. The payload handed over is the one the slot holds at that moment: the
  original payload after as many applications of the visitor as the index has earlier
  entries, hence the original payload itself when no index is listed twice. Slots that
  are not listed are left as they were.
\<close>

theorem for_each_visits_entries_in_order:
  "((\<exists>r. for_each f s = Inr r) \<longleftrightarrow> visitable_entries s (alive_vec s))
   \<and> (\<forall>calls s'. for_each f s = Inr (calls, s') \<longrightarrow>
          map snd calls = alive_vec s
          \<and> (\<forall>k < length (alive_vec s).
                calls ! k
                  = (((\<lambda>v. f v (alive_vec s ! k))
                        ^^ count_list (take k (alive_vec s)) (alive_vec s ! k))
                       (the (data_vec s ! (alive_vec s ! k))), alive_vec s ! k))
          \<and> alive_vec s' = alive_vec s
          \<and> length (data_vec s') = length (data_vec s)
          \<and> (\<forall>j. j \<notin> set (alive_vec s) \<longrightarrow> data_vec s' ! j = data_vec s ! j)
          \<and> (distinct (alive_vec s) \<longrightarrow>
                calls = map (\<lambda>i. (the (data_vec s ! i), i)) (alive_vec s)))
   \<and> (liveness_invariant s \<longrightarrow>
        (\<exists>s'. for_each f s = Inr (map (\<lambda>i. (the (data_vec s ! i), i)) (alive_vec s), s')))"
proof (intro conjI)
  show "(\<exists>r. for_each f s = Inr r) \<longleftrightarrow> visitable_entries s (alive_vec s)"
  proof
    assume "\<exists>r. for_each f s = Inr r"
    then obtain calls s' where "for_each_loop f (alive_vec s) s = Inr (calls, s')"
      by (auto simp: for_each_def)
    from for_each_loop_sound [OF this] show "visitable_entries s (alive_vec s)" by simp
  next
    assume "visitable_entries s (alive_vec s)"
    from for_each_loop_returns [OF this, of f] show "\<exists>r. for_each f s = Inr r"
      by (auto simp: for_each_def)
  qed
next
  show "\<forall>calls s'. for_each f s = Inr (calls, s') \<longrightarrow>
          map snd calls = alive_vec s
          \<and> (\<forall>k < length (alive_vec s).
                calls ! k
                  = (((\<lambda>v. f v (alive_vec s ! k))
                        ^^ count_list (take k (alive_vec s)) (alive_vec s ! k))
                       (the (data_vec s ! (alive_vec s ! k))), alive_vec s ! k))
          \<and> alive_vec s' = alive_vec s
          \<and> length (data_vec s') = length (data_vec s)
          \<and> (\<forall>j. j \<notin> set (alive_vec s) \<longrightarrow> data_vec s' ! j = data_vec s ! j)
          \<and> (distinct (alive_vec s) \<longrightarrow>
                calls = map (\<lambda>i. (the (data_vec s ! i), i)) (alive_vec s))"
  proof (intro allI impI)
    fix calls s' assume "for_each f s = Inr (calls, s')"
    then have loop: "for_each_loop f (alive_vec s) s = Inr (calls, s')"
      by (simp add: for_each_def)
    note snd = for_each_loop_sound [OF loop]
    have dist: "calls = map (\<lambda>i. (the (data_vec s ! i), i)) (alive_vec s)"
      if d: "distinct (alive_vec s)"
    proof -
      from snd have "\<forall>i \<in> set (alive_vec s). i < length (data_vec s) \<and> has_value (data_vec s ! i)"
        by (simp add: visitable_entries_def)
      from for_each_loop_result [OF d this, of f] loop show ?thesis by auto
    qed
    from snd dist
    show "map snd calls = alive_vec s
          \<and> (\<forall>k < length (alive_vec s).
                calls ! k
                  = (((\<lambda>v. f v (alive_vec s ! k))
                        ^^ count_list (take k (alive_vec s)) (alive_vec s ! k))
                       (the (data_vec s ! (alive_vec s ! k))), alive_vec s ! k))
          \<and> alive_vec s' = alive_vec s
          \<and> length (data_vec s') = length (data_vec s)
          \<and> (\<forall>j. j \<notin> set (alive_vec s) \<longrightarrow> data_vec s' ! j = data_vec s ! j)
          \<and> (distinct (alive_vec s) \<longrightarrow>
                calls = map (\<lambda>i. (the (data_vec s ! i), i)) (alive_vec s))"
      by blast
  qed
next
  show "liveness_invariant s \<longrightarrow>
        (\<exists>s'. for_each f s = Inr (map (\<lambda>i. (the (data_vec s ! i), i)) (alive_vec s), s'))"
    using for_each_under_invariant [of s f] by blast
qed

text \<open>
  For every store, C9 fails: on the store where index 0 was emplaced twice, for_each
  returns and has called the visitor at index 0 twice.
\<close>

theorem for_each_visits_duplicate_twice:
  "for_each (\<lambda>v i. v) duplicated_store
     = Inr ([(3, 0), (2, 1), (3, 0), (4, 2)], duplicated_store)"
  by (simp add: for_each_def at_def value_unchecked_def duplicated_store_def)

theorem for_each_visits_entries_in_order_witness:
  "visitable_entries reversed_store (alive_vec reversed_store)
   \<and> distinct (alive_vec reversed_store)
   \<and> liveness_invariant reversed_store
   \<and> (\<exists>s'. for_each (\<lambda>v i. v + i) reversed_store = Inr ([(6, 2), (5, 0)], s')
          \<and> alive_vec s' = [2, 0])
   \<and> visitable_entries duplicated_store (alive_vec duplicated_store)
   \<and> (\<exists>calls s'. for_each (\<lambda>v i. v + 1) duplicated_store = Inr (calls, s')
          \<and> map snd calls = [0, 1, 0, 2] \<and> calls ! 2 = (4, 0))"
proof -
  have inv: "liveness_invariant reversed_store"
    by (simp add: liveness_invariant_def reversed_store_def)
  have vis: "visitable_entries reversed_store (alive_vec reversed_store)"
    and d: "distinct (alive_vec reversed_store)"
    by (simp_all add: visitable_entries_def reversed_store_def)
  have mp: "map (\<lambda>i. (the (data_vec reversed_store ! i), i)) (alive_vec reversed_store)
              = [(6, 2), (5, 0)]"
    by (simp add: reversed_store_def)
  have a: "alive_vec reversed_store = [2, 0]" by (simp add: reversed_store_def)
  note th = for_each_visits_entries_in_order [of "\<lambda>v i. v + i" reversed_store]
  from th inv obtain s' where
    fe: "for_each (\<lambda>v i. v + i) reversed_store
       = Inr (map (\<lambda>i. (the (data_vec reversed_store ! i), i)) (alive_vec reversed_store), s')"
    by blast
  from th fe have al: "alive_vec s' = alive_vec reversed_store" by blast
  have fe': "for_each (\<lambda>v i. v + i) reversed_store = Inr ([(6, 2), (5, 0)], s')"
    using fe by (simp only: mp)
  have al': "alive_vec s' = [2, 0]" using al by (simp only: a)
  have visd: "visitable_entries duplicated_store (alive_vec duplicated_store)"
    by (simp add: visitable_entries_def duplicated_store_def)
  have ad: "alive_vec duplicated_store = [0, 1, 0, 2]" by (simp add: duplicated_store_def)
  note thd = for_each_visits_entries_in_order [of "\<lambda>v i. v + 1" duplicated_store]
  from thd visd obtain r where "for_each (\<lambda>v i. v + 1) duplicated_store = Inr r" by blast
  then obtain calls t where fd: "for_each (\<lambda>v i. v + 1) duplicated_store = Inr (calls, t)"
    by (cases r) auto
  from thd fd have ms: "map snd calls = alive_vec duplicated_store"
    and pk: "\<forall>k < length (alive_vec duplicated_store).
                calls ! k
                  = (((\<lambda>v. v + 1)
                        ^^ count_list (take k (alive_vec duplicated_store)) (alive_vec duplicated_store ! k))
                       (the (data_vec duplicated_store ! (alive_vec duplicated_store ! k))),
                     alive_vec duplicated_store ! k)"
    by blast+
  have ms': "map snd calls = [0, 1, 0, 2]" using ms by (simp only: ad)
  have "calls ! 2 = (((\<lambda>v. v + 1) ^^ count_list (take 2 [0, 1, 0, 2]) (0::nat))
                       (the (data_vec duplicated_store ! 0)), 0)"
    using pk by (simp add: ad)
  then have c2: "calls ! 2 = (4, 0)"
    by (simp add: duplicated_store_def eval_nat_numeral)
  have e1: "\<exists>s'. for_each (\<lambda>v i. v + i) reversed_store = Inr ([(6, 2), (5, 0)], s')
          \<and> alive_vec s' = [2, 0]"
    using fe' al' by (intro exI conjI)
  have e2: "\<exists>calls s'. for_each (\<lambda>v i. v + 1) duplicated_store = Inr (calls, s')
          \<and> map snd calls = [0, 1, 0, 2] \<and> calls ! 2 = (4, 0)"
    using fd ms' c2 by (intro exI conjI)
  from vis d inv e1 visd e2 show ?thesis by (intro conjI)
qed

section \<open>A run through the operations\<close>

text \<open>
  Four slots; payloads \<open>''a''\<close> at 1 and \<open>''b''\<close> at 3 give size 2 and lowest empty index
  0; erasing the payloads equal to \<open>''a''\<close> leaves size 1 and the live index 3 with
  \<open>''b''\<close>; clear leaves size 0.
\<close>

lemma four_slot_scenario:
  "\<exists>s1 s2. run_calls grow [Emplace_at 1 ''a'', Emplace_at 3 ''b''] (sparse_array_sized 4) = Inr s1
     \<and> size_sa s1 = 2 \<and> next_empty_index s1 = Some 0
     \<and> erase_if (\<lambda>v. v = ''a'') s1 = Inr s2
     \<and> size_sa s2 = 1 \<and> alive_vec s2 = [3] \<and> at s2 3 = Inr ''b''
     \<and> size_sa (clear s2) = 0"
proof -
  let ?s1 = "\<lparr>data_vec = [None, Some ''a'', None, Some ''b''], alive_vec = [1, 3], alive_cap = 4\<rparr>"
  let ?s2 = "\<lparr>data_vec = [None, None, None, Some ''b''], alive_vec = [3], alive_cap = 4\<rparr>"
  have r1: "run_calls grow [Emplace_at 1 ''a'', Emplace_at 3 ''b''] (sparse_array_sized 4) = Inr ?s1"
    by (simp add: emplace_at_def emplace_back_def Let_def
        sparse_array_sized_def resize_def sparse_array_default_def eval_nat_numeral)
  have r2: "erase_if (\<lambda>v. v = ''a'') ?s1 = Inr ?s2"
    by (simp add: erase_if_def erase_if_closure_def at_def value_unchecked_def)
  have "size_sa ?s1 = 2" "next_empty_index ?s1 = Some 0" "size_sa ?s2 = 1" "alive_vec ?s2 = [3]"
    "at ?s2 3 = Inr ''b''" "size_sa (clear ?s2) = 0"
    by (simp_all add: size_sa_def next_empty_index_def capacity_def is_null_def at_def
        value_unchecked_def clear_def)
  with r1 r2 show ?thesis by blast
qed

section \<open>The default-constructed store\<close>

text \<open>
  C10. A default-constructed store, on which resize was never called, has size 0 and
  capacity 0, and next_empty_index answers "no value": the test of the size against the
  capacity succeeds before any slot is scanned.
\<close>

theorem default_store_has_no_empty_index:
  "size_sa sparse_array_default = 0
   \<and> capacity sparse_array_default = 0
   \<and> next_empty_index sparse_array_default = None"
  by (simp add: size_sa_def capacity_def next_empty_index_def sparse_array_default_def)

end
